theory Spec2Isabelle
  imports Main
begin

section \<open>Byte buffers, key/value pairs and the ordered containers\<close>

text \<open>
  The session template of \<^verbatim>\<open>session.hpp\<close> is parameterised by its collaborators:
  \<^verbatim>\<open>shared_bytes\<close>, \<^verbatim>\<open>key_value\<close>, the cache and the persistent data store. Their code is
  not part of the header, so they are modelled from the interface the specification
  gives them. Keys are any linearly ordered type \<open>'k\<close> (byte strings under the
  lexicographic order are one instance), values any type \<open>'v\<close>.
\<close>

text \<open>Modelled from the spec: the byte buffer with its sentinel. \<open>None\<close> is
  \<^verbatim>\<open>shared_bytes::invalid\<close>, which is equal to no real buffer.\<close>

type_synonym 'k shared_bytes = "'k option"

text \<open>Modelled from the spec: the key/value pair with its sentinel. \<open>None\<close> is
  \<^verbatim>\<open>key_value::invalid\<close>.\<close>

type_synonym ('k, 'v) key_value = "('k \<times> 'v) option"

text \<open>Modelled from the spec: an ordered key to value container (the overlay cache, the
  backing store and an external destination store all have this shape). The list holds
  the entries in key order, as an in-order walk of the container yields them.\<close>

type_synonym ('k, 'v) data_store = "('k \<times> 'v) list"

text \<open>Modelled from the spec: \<^verbatim>\<open>read(K)\<close> of a container, the entry or the invalid pair.\<close>

definition ds_read :: "('k, 'v) data_store \<Rightarrow> 'k \<Rightarrow> ('k, 'v) key_value" where
  "ds_read ds k = map_option (Pair k) (map_of ds k)"

text \<open>Modelled from the spec: \<^verbatim>\<open>contains(K)\<close> of a container.\<close>

definition ds_contains :: "('k, 'v) data_store \<Rightarrow> 'k \<Rightarrow> bool" where
  "ds_contains ds k = (map_of ds k \<noteq> None)"

text \<open>Modelled from the spec: \<^verbatim>\<open>erase(K)\<close> of a container.\<close>

definition ds_erase :: "('k, 'v) data_store \<Rightarrow> 'k \<Rightarrow> ('k, 'v) data_store" where
  "ds_erase ds k = filter (\<lambda>e. fst e \<noteq> k) ds"

text \<open>Modelled from the spec: \<^verbatim>\<open>write(KV)\<close> of a container; the entry replaces an older one
  of the same key and stands at its place in the key order.\<close>

definition ds_write :: "('k::linorder, 'v) data_store \<Rightarrow> 'k \<times> 'v \<Rightarrow> ('k, 'v) data_store" where
  "ds_write ds kv = insort_key fst kv (ds_erase ds (fst kv))"

text \<open>Modelled from the spec: the batch forms \<^verbatim>\<open>write(iterable<KV>)\<close> and
  \<^verbatim>\<open>erase(iterable<K>)\<close>, element by element in the order given.\<close>

definition ds_write_batch ::
  "('k::linorder, 'v) data_store \<Rightarrow> ('k \<times> 'v) list \<Rightarrow> ('k, 'v) data_store" where
  "ds_write_batch ds kvs = foldl ds_write ds kvs"

definition ds_erase_batch :: "('k, 'v) data_store \<Rightarrow> 'k list \<Rightarrow> ('k, 'v) data_store" where
  "ds_erase_batch ds ks = foldl ds_erase ds ks"

text \<open>Modelled from the spec: \<^verbatim>\<open>read(keys) \<rightarrow> (found, missing)\<close> of a container.\<close>

definition ds_read_batch ::
  "('k, 'v) data_store \<Rightarrow> 'k list \<Rightarrow> ('k \<times> 'v) list \<times> 'k list" where
  "ds_read_batch ds ks =
     (List.map_filter (ds_read ds) ks, filter (\<lambda>k. ds_read ds k = None) ks)"

text \<open>Modelled from the spec: the entries \<^verbatim>\<open>write_to(Dest, keys)\<close> of a container hands to
  the destination's batch write: the entries it holds for \<open>keys\<close>, in the order of
  \<open>keys\<close>.\<close>

definition ds_entries_for :: "('k, 'v) data_store \<Rightarrow> 'k list \<Rightarrow> ('k \<times> 'v) list" where
  "ds_entries_for ds ks = List.map_filter (ds_read ds) ks"

text \<open>
  Modelled from the spec: container iterators. A position is the list of the entries
  from it to the end, so \<^verbatim>\<open>end()\<close> is the empty list, \<^verbatim>\<open>*it\<close> the head and \<^verbatim>\<open>++it\<close> the
  tail.
\<close>

definition ds_begin :: "('k, 'v) data_store \<Rightarrow> ('k \<times> 'v) list" where
  "ds_begin ds = ds"

definition ds_end :: "('k, 'v) data_store \<Rightarrow> ('k \<times> 'v) list" where
  "ds_end ds = []"

definition ds_lower_bound :: "'k::linorder \<Rightarrow> ('k, 'v) data_store \<Rightarrow> ('k \<times> 'v) list" where
  "ds_lower_bound k ds = dropWhile (\<lambda>e. fst e < k) ds"

definition ds_upper_bound :: "'k::linorder \<Rightarrow> ('k, 'v) data_store \<Rightarrow> ('k \<times> 'v) list" where
  "ds_upper_bound k ds = dropWhile (\<lambda>e. fst e \<le> k) ds"

definition ds_find :: "'k \<Rightarrow> ('k, 'v) data_store \<Rightarrow> ('k \<times> 'v) list" where
  "ds_find k ds = dropWhile (\<lambda>e. fst e \<noteq> k) ds"

text \<open>An \<^verbatim>\<open>unordered_set<shared_bytes>\<close> is a list without repetitions; the order of the
  list is the order in which a range-based loop visits the set. Every theorem below is
  about an arbitrary state, hence about every visiting order.\<close>

definition us_emplace :: "'k \<Rightarrow> 'k list \<Rightarrow> 'k list" where
  "us_emplace k xs = (if k \<in> set xs then xs else xs @ [k])"

definition us_erase :: "'k \<Rightarrow> 'k list \<Rightarrow> 'k list" where
  "us_erase k xs = removeAll k xs"

section \<open>Session nodes and the heap\<close>

type_synonym addr = nat

text \<open>\<^verbatim>\<open>iterator_state\<close> (lines 46-50), with its default member initialisers.\<close>

record iterator_state =
  next_in_cache :: bool
  previous_in_cache :: bool
  deleted :: bool

definition iterator_state0 :: iterator_state where
  "iterator_state0 = \<lparr>next_in_cache = False, previous_in_cache = False, deleted = False\<rparr>"

text \<open>\<^verbatim>\<open>iterator_cache_type\<close> is a \<^verbatim>\<open>std::map\<close>: the entries in key order.\<close>

type_synonym 'k iterator_cache_type = "('k \<times> iterator_state) list"

text \<open>
  \<^verbatim>\<open>session_impl\<close> (lines 216-258). A \<^verbatim>\<open>shared_ptr<session_impl>\<close> is an address or null
  (\<open>None\<close>); the shared backing store is a reference into the table of stores. The weak
  \<open>child\<close> pointer is an address too: no \<^verbatim>\<open>session_impl\<close> is destroyed in the model, so
  \<^verbatim>\<open>child.lock()\<close> yields the pointer stored.
\<close>

record ('k, 'v) session_impl =
  parent :: "addr option"
  child :: "addr option"
  backing_data_store :: "nat option"
  cache :: "('k, 'v) data_store"
  iterator_cache :: "'k iterator_cache_type"
  updated_keys :: "'k list"
  deleted_keys :: "'k list"

text \<open>The program state: the \<^verbatim>\<open>session_impl\<close> objects by address, the persistent data
  stores by reference, and the next free address and reference. A session handle is its
  \<^verbatim>\<open>m_impl\<close>: an address, or \<open>None\<close> for an empty handle.\<close>

record ('k, 'v) state =
  impls :: "addr \<Rightarrow> ('k, 'v) session_impl"
  stores :: "nat \<Rightarrow> ('k, 'v) data_store"
  next_impl :: addr
  next_store :: nat

type_synonym session = "addr option"

text \<open>What the code does where C++ leaves the behaviour undefined.\<close>

datatype error =
    Null_backing_store
  | Null_impl
  | End_iterator
  | Invalid_iterator

section \<open>The walk from a layer toward the root\<close>

text \<open>
  The loops of \<^verbatim>\<open>read\<close> (559-576), \<^verbatim>\<open>contains\<close> (614-626), the batch \<^verbatim>\<open>read\<close> (673-694)
  and \<^verbatim>\<open>write_to\<close> (755-770) visit the same layers with the same tests: a layer whose
  \<open>deleted_keys\<close> holds the key ends the walk, else a layer whose cache holds the key
  ends it, else the walk goes on at the parent. A chain of parents that never ends is a
  loop that never returns: \<open>None\<close>.
\<close>

datatype ('k, 'v) walk_result =
    Walk_deleted addr
  | Walk_found addr "'k \<times> 'v"
  | Walk_miss

partial_function (option) walk ::
  "(addr \<Rightarrow> ('k, 'v) session_impl) \<Rightarrow> 'k \<Rightarrow> addr option \<Rightarrow> ('k, 'v) walk_result option" where
  "walk h key p =
     (case p of
        None \<Rightarrow> Some Walk_miss
      | Some a \<Rightarrow>
          if key \<in> set (deleted_keys (h a)) then Some (Walk_deleted a)
          else (case ds_read (cache (h a)) key of
                  Some kv \<Rightarrow> Some (Walk_found a kv)
                | None \<Rightarrow> walk h key (parent (h a))))"

declare walk.simps [code]

section \<open>\<^verbatim>\<open>write_to\<close>\<close>

text \<open>\<^verbatim>\<open>session::write_to\<close> (745-773): the loop over the keys collects \<open>results\<close>, then
  \<^verbatim>\<open>ds.write(results)\<close>. The destination is an external store.\<close>

fun write_to_results ::
  "(addr \<Rightarrow> ('k, 'v) session_impl) \<Rightarrow> addr \<Rightarrow> 'k list \<Rightarrow> ('k \<times> 'v) list option" where
  "write_to_results h a [] = Some []"
| "write_to_results h a (key # keys) =
     (case walk h key (Some a) of
        None \<Rightarrow> None
      | Some (Walk_found l kv) \<Rightarrow> map_option ((#) kv) (write_to_results h a keys)
      | Some _ \<Rightarrow> write_to_results h a keys)"

definition session_write_to ::
  "('k::linorder, 'v) state \<Rightarrow> session \<Rightarrow> ('k, 'v) data_store \<Rightarrow> 'k list
     \<Rightarrow> ('k, 'v) data_store option" where
  "session_write_to st s ds keys =
     (case s of
        None \<Rightarrow> Some ds
      | Some a \<Rightarrow> map_option (ds_write_batch ds) (write_to_results (impls st) a keys))"


section \<open>Results of operations\<close>

text \<open>An operation returns \<open>Some (Inr x)\<close> when it returns \<open>x\<close>, \<open>Some (Inl e)\<close> when it runs
  into undefined behaviour \<open>e\<close>, and \<open>None\<close> when it never returns.\<close>

type_synonym 'a result = "(error + 'a) option"

definition ret :: "'a \<Rightarrow> 'a result" where
  "ret x = Some (Inr x)"

definition fault :: "error \<Rightarrow> 'a result" where
  "fault e = Some (Inl e)"

definition bind_res :: "'a result \<Rightarrow> ('a \<Rightarrow> 'b result) \<Rightarrow> 'b result" where
  "bind_res m f = (case m of None \<Rightarrow> None | Some (Inl e) \<Rightarrow> Some (Inl e) | Some (Inr x) \<Rightarrow> f x)"

definition map_impl ::
  "('k, 'v) state \<Rightarrow> addr \<Rightarrow> (('k, 'v) session_impl \<Rightarrow> ('k, 'v) session_impl) \<Rightarrow> ('k, 'v) state" where
  "map_impl st a f = st\<lparr>impls := (impls st)(a := f (impls st a))\<rparr>"

section \<open>The iterator cache and \<^verbatim>\<open>make_iterator_\<close>\<close>

text \<open>\<^verbatim>\<open>iterator_cache.try_emplace(key, iterator_state{})\<close>.\<close>

definition try_emplace :: "'k::linorder \<Rightarrow> 'k iterator_cache_type \<Rightarrow> 'k iterator_cache_type" where
  "try_emplace k ic =
     (if map_of ic k \<noteq> None then ic else insort_key fst (k, iterator_state0) ic)"

text \<open>An assignment through a reference to the entry of \<open>k\<close>.\<close>

definition ic_modify ::
  "'k \<Rightarrow> (iterator_state \<Rightarrow> iterator_state) \<Rightarrow> 'k iterator_cache_type \<Rightarrow> 'k iterator_cache_type" where
  "ic_modify k f ic = map (\<lambda>e. if fst e = k then (fst e, f (snd e)) else e) ic"

text \<open>\<^verbatim>\<open>iterator_cache_params\<close> (226-231).\<close>

record iterator_cache_params =
  prime_only :: bool
  recalculate :: bool
  mark_deleted :: bool
  overwrite :: bool

text \<open>The \<open>move\<close> functors passed to \<^verbatim>\<open>make_iterator_\<close>: \<^verbatim>\<open>++it\<close> and \<^verbatim>\<open>it = end\<close>.\<close>

datatype move = Increment | To_end

fun apply_move :: "move \<Rightarrow> 'a list \<Rightarrow> 'a list" where
  "apply_move Increment it = tl it"
| "apply_move To_end it = []"

text \<open>Line 813: \<^verbatim>\<open>while (parent->parent) { parent = parent->parent; }\<close>.\<close>

partial_function (option) root_of ::
  "(addr \<Rightarrow> ('k, 'v) session_impl) \<Rightarrow> addr \<Rightarrow> addr option" where
  "root_of h a = (case parent (h a) of None \<Rightarrow> Some a | Some p \<Rightarrow> root_of h p)"

declare root_of.simps [code]

text \<open>The loop of the lambda \<^verbatim>\<open>deleted\<close> (820-831); \<open>m\<close> is the captured \<^verbatim>\<open>m_impl\<close>.\<close>

partial_function (option) deleted_loop ::
  "(addr \<Rightarrow> ('k, 'v) session_impl) \<Rightarrow> addr \<Rightarrow> 'k \<Rightarrow> addr option \<Rightarrow> bool \<Rightarrow> bool option" where
  "deleted_loop h m key c result =
     (case c of
        None \<Rightarrow> Some result
      | Some ca \<Rightarrow>
          (let result' =
             (if key \<in> set (deleted_keys (h ca)) then True
              else if key \<in> set (updated_keys (h ca)) then False
              else result)
           in if ca = m then Some result' else deleted_loop h m key (child (h ca)) result'))"

declare deleted_loop.simps [code]

text \<open>The lambda \<^verbatim>\<open>deleted\<close> (815-833), applied to \<open>session\<close> and \<open>key\<close>.\<close>

definition deleted_lambda ::
  "(addr \<Rightarrow> ('k, 'v) session_impl) \<Rightarrow> addr \<Rightarrow> addr \<Rightarrow> 'k \<Rightarrow> bool option" where
  "deleted_lambda h m session key = deleted_loop h m key (child (h session)) False"

text \<open>The lambda \<^verbatim>\<open>find_first_not\<close> (835-851). It returns the invalid key exactly when it
  leaves \<open>it\<close> at \<open>end_it\<close>, so the caller's test \<^verbatim>\<open>pending == end\<close> (866) is the test that
  the key returned is invalid.\<close>

function find_first_not ::
  "('k \<Rightarrow> bool option) \<Rightarrow> move \<Rightarrow> ('k \<times> 'v) list \<Rightarrow> 'k shared_bytes option" where
  "find_first_not predicate mv it =
     (case it of
        [] \<Rightarrow> Some None
      | e # rest \<Rightarrow>
          (case predicate (fst e) of
             None \<Rightarrow> None
           | Some False \<Rightarrow> Some (Some (fst e))
           | Some True \<Rightarrow> find_first_not predicate mv (apply_move mv (e # rest))))"
  by pat_completeness auto
termination
  by (relation "measure (\<lambda>(predicate, mv, it). length it)") (auto, case_tac mv, auto)

declare find_first_not.simps [simp del]

text \<open>The loop over the layers from the root down (861-881).\<close>

partial_function (option) layers_loop ::
  "(addr \<Rightarrow> ('k, 'v) session_impl) \<Rightarrow> addr \<Rightarrow> addr
     \<Rightarrow> (('k, 'v) data_store \<Rightarrow> ('k \<times> 'v) list) \<Rightarrow> ('k \<Rightarrow> 'k \<Rightarrow> bool) \<Rightarrow> move
     \<Rightarrow> addr option \<Rightarrow> 'k shared_bytes \<Rightarrow> 'k shared_bytes option" where
  "layers_loop h m root predicate comparator mv current current_key =
     (case current of
        None \<Rightarrow> Some current_key
      | Some c \<Rightarrow>
          (case find_first_not (deleted_lambda h m root) mv (predicate (cache (h c))) of
             None \<Rightarrow> None
           | Some None \<Rightarrow>
               layers_loop h m root predicate comparator mv (child (h c)) current_key
           | Some (Some pending_key) \<Rightarrow>
               (let current_key' =
                  (case current_key of
                     None \<Rightarrow> Some pending_key
                   | Some ck \<Rightarrow> if comparator pending_key ck then Some pending_key else Some ck)
                in if c = m then Some current_key'
                   else layers_loop h m root predicate comparator mv (child (h c)) current_key')))"

declare layers_loop.simps [code]

text \<open>Lines 812-881 of \<^verbatim>\<open>make_iterator_\<close>: the key the new iterator starts at. Line 854
  dereferences \<^verbatim>\<open>m_impl->backing_data_store\<close> without a test.\<close>

definition best_key ::
  "('k, 'v) state \<Rightarrow> addr \<Rightarrow> (('k, 'v) data_store \<Rightarrow> ('k \<times> 'v) list) \<Rightarrow> ('k \<Rightarrow> 'k \<Rightarrow> bool)
     \<Rightarrow> move \<Rightarrow> 'k shared_bytes result" where
  "best_key st a predicate comparator mv =
     (case root_of (impls st) a of
        None \<Rightarrow> None
      | Some root \<Rightarrow>
          (case backing_data_store (impls st a) of
             None \<Rightarrow> fault Null_backing_store
           | Some b \<Rightarrow>
               (case find_first_not (deleted_lambda (impls st) a root) mv
                       (predicate (stores st b)) of
                  None \<Rightarrow> None
                | Some current_key \<Rightarrow>
                    map_option Inr
                      (layers_loop (impls st) a root predicate comparator mv (Some root)
                         current_key))))"

text \<open>A session iterator (119-121): the position in the iterator cache is the key of the
  entry it points to, or \<open>None\<close> at \<^verbatim>\<open>end(iterator_cache)\<close>; a \<^verbatim>\<open>std::map\<close> iterator stays at
  its entry when other entries are inserted.\<close>

record 'k session_iterator =
  m_active_iterator :: "'k option"
  m_active_session :: session

text \<open>
  \<^verbatim>\<open>make_iterator_\<close> (789-898) with the call of \<^verbatim>\<open>update_iterator_cache\<close> at line 887 as the
  parameter \<open>upd\<close>: \<^verbatim>\<open>update_iterator_cache\<close> calls \<^verbatim>\<open>bounds\<close>, which calls \<^verbatim>\<open>make_iterator_\<close>
  with \<^verbatim>\<open>prime_cache_only = true\<close>, and that call of \<^verbatim>\<open>update_iterator_cache\<close> returns at line
  473.
\<close>

definition make_iterator_with ::
  "(('k, 'v) state \<Rightarrow> addr \<Rightarrow> 'k \<Rightarrow> ('k, 'v) state result)
     \<Rightarrow> ('k, 'v) state \<Rightarrow> session \<Rightarrow> (('k, 'v) data_store \<Rightarrow> ('k \<times> 'v) list)
     \<Rightarrow> ('k \<Rightarrow> 'k \<Rightarrow> bool) \<Rightarrow> move \<Rightarrow> (('k, 'v) state \<times> 'k session_iterator) result" where
  "make_iterator_with upd st s predicate comparator mv =
     (case s of
        None \<Rightarrow> ret (st, \<lparr>m_active_iterator = None, m_active_session = None\<rparr>)
      | Some a \<Rightarrow>
          bind_res (best_key st a predicate comparator mv) (\<lambda>current_key.
            case current_key of
              None \<Rightarrow> ret (st, \<lparr>m_active_iterator = None, m_active_session = Some a\<rparr>)
            | Some k \<Rightarrow>
                bind_res (upd st a k) (\<lambda>st'.
                  case map_of (iterator_cache (impls st' a)) k of
                    None \<Rightarrow> fault End_iterator
                  | Some e \<Rightarrow>
                      ret (st', \<lparr>m_active_iterator = (if deleted e then None else Some k),
                                 m_active_session = Some a\<rparr>))))"

text \<open>\<^verbatim>\<open>update_iterator_cache\<close> with \<^verbatim>\<open>prime_only = true\<close>: lines 469-474.\<close>

definition update_iterator_cache_prime ::
  "('k::linorder, 'v) state \<Rightarrow> addr \<Rightarrow> 'k \<Rightarrow> ('k, 'v) state result" where
  "update_iterator_cache_prime st a key =
     ret (map_impl st a (\<lambda>m. m\<lparr>iterator_cache := try_emplace key (iterator_cache m)\<rparr>))"

text \<open>\<^verbatim>\<open>operator==\<close> and \<^verbatim>\<open>operator!=\<close> of the session iterator (1196-1215).\<close>

definition iterator_eq :: "'k session_iterator \<Rightarrow> 'k session_iterator \<Rightarrow> bool result" where
  "iterator_eq this other =
     (case m_active_session this of
        None \<Rightarrow> fault Null_impl
      | Some a \<Rightarrow>
          if m_active_iterator this = None \<and> m_active_iterator this = m_active_iterator other
          then ret True
          else if m_active_iterator other = None then ret False
          else (case m_active_iterator this of
                  None \<Rightarrow> fault End_iterator
                | Some k \<Rightarrow> ret (Some k = m_active_iterator other)))"

definition iterator_neq :: "'k session_iterator \<Rightarrow> 'k session_iterator \<Rightarrow> bool result" where
  "iterator_neq this other = bind_res (iterator_eq this other) (\<lambda>b. ret (\<not> b))"

text \<open>The lambda \<open>lower\<close> of \<^verbatim>\<open>bounds\<close> (440-446); \<^verbatim>\<open>--it\<close> is the position one entry
  earlier.\<close>

definition lower :: "'k::linorder \<Rightarrow> ('k, 'v) data_store \<Rightarrow> ('k \<times> 'v) list" where
  "lower key ds =
     (let it = ds_lower_bound key ds
      in if it \<noteq> ds_begin ds \<and> it \<noteq> ds_end ds
         then drop (length ds - Suc (length it)) ds
         else ds_end ds)"

text \<open>\<^verbatim>\<open>session_impl::bounds\<close> (429-464).\<close>

definition bounds ::
  "('k::linorder, 'v) state \<Rightarrow> addr \<Rightarrow> 'k
     \<Rightarrow> (('k, 'v) state \<times> 'k shared_bytes \<times> 'k shared_bytes) result" where
  "bounds st a key =
     bind_res (make_iterator_with update_iterator_cache_prime st (Some a)
                 (lower key) (<) Increment) (\<lambda>(st1, lower_bound).
     bind_res (make_iterator_with update_iterator_cache_prime st1 (Some a)
                 (ds_upper_bound key) (<) Increment) (\<lambda>(st2, upper_bound).
     bind_res (make_iterator_with update_iterator_cache_prime st2 (Some a)
                 ds_end (>) To_end) (\<lambda>(st3, end).
     bind_res (iterator_neq lower_bound end) (\<lambda>l.
     bind_res (iterator_neq upper_bound end) (\<lambda>u.
       ret (st3,
            (if l then m_active_iterator lower_bound else None),
            (if u then m_active_iterator upper_bound else None)))))))"

text \<open>\<^verbatim>\<open>session_impl::update_iterator_cache\<close> (466-504).\<close>

definition update_iterator_cache ::
  "('k::linorder, 'v) state \<Rightarrow> addr \<Rightarrow> 'k \<Rightarrow> iterator_cache_params \<Rightarrow> ('k, 'v) state result" where
  "update_iterator_cache st a key params =
     (let st1 = map_impl st a (\<lambda>m. m\<lparr>iterator_cache := try_emplace key (iterator_cache m)\<rparr>)
      in if prime_only params then ret st1
         else
           (let st2 =
              (if overwrite params
               then map_impl st1 a (\<lambda>m. m\<lparr>iterator_cache :=
                      ic_modify key (\<lambda>e. e\<lparr>deleted := mark_deleted params\<rparr>) (iterator_cache m)\<rparr>)
               else st1)
            in case map_of (iterator_cache (impls st2 a)) key of
                 None \<Rightarrow> fault End_iterator
               | Some e \<Rightarrow>
                   if \<not> recalculate params \<and> next_in_cache e \<and> previous_in_cache e then ret st2
                   else
                     bind_res (bounds st2 a key) (\<lambda>(st3, lower_bound, upper_bound).
                       (let st4 =
                          (case lower_bound of
                             None \<Rightarrow> st3
                           | Some lo \<Rightarrow>
                               map_impl st3 a (\<lambda>m. m\<lparr>iterator_cache :=
                                 ic_modify key (\<lambda>e. e\<lparr>previous_in_cache := True\<rparr>)
                                   (ic_modify lo (\<lambda>e. e\<lparr>next_in_cache := True\<rparr>)
                                      (try_emplace lo (iterator_cache m)))\<rparr>));
                            st5 =
                          (case upper_bound of
                             None \<Rightarrow> st4
                           | Some up \<Rightarrow>
                               map_impl st4 a (\<lambda>m. m\<lparr>iterator_cache :=
                                 ic_modify key (\<lambda>e. e\<lparr>next_in_cache := True\<rparr>)
                                   (ic_modify up (\<lambda>e. e\<lparr>previous_in_cache := True\<rparr>)
                                      (try_emplace up (iterator_cache m)))\<rparr>))
                        in ret st5))))"

text \<open>\<^verbatim>\<open>make_iterator_\<close> (789-898).\<close>

definition make_iterator ::
  "('k::linorder, 'v) state \<Rightarrow> session \<Rightarrow> (('k, 'v) data_store \<Rightarrow> ('k \<times> 'v) list)
     \<Rightarrow> ('k \<Rightarrow> 'k \<Rightarrow> bool) \<Rightarrow> move \<Rightarrow> bool \<Rightarrow> (('k, 'v) state \<times> 'k session_iterator) result" where
  "make_iterator st s predicate comparator mv prime_cache_only =
     make_iterator_with
       (\<lambda>st a k. update_iterator_cache st a k
          \<lparr>prime_only = prime_cache_only, recalculate = True, mark_deleted = False,
           overwrite = False\<rparr>)
       st s predicate comparator mv"


section \<open>Reading and writing through a session\<close>

text \<open>The parameters \<^verbatim>\<open>read\<close>, \<^verbatim>\<open>contains\<close>, the batch \<^verbatim>\<open>read\<close> and \<^verbatim>\<open>move_\<close> pass to
  \<^verbatim>\<open>update_iterator_cache\<close>.\<close>

definition refresh_params :: iterator_cache_params where
  "refresh_params =
     \<lparr>prime_only = False, recalculate = True, mark_deleted = False, overwrite = False\<rparr>"

text \<open>Lines 568-570 and 582-584 (and 685-687): the value found goes into the cache of
  \<^verbatim>\<open>m_impl\<close>, and the iterator cache is updated for its key.\<close>

definition cache_found ::
  "('k::linorder, 'v) state \<Rightarrow> addr \<Rightarrow> 'k \<times> 'v \<Rightarrow> ('k, 'v) state result" where
  "cache_found st a kv =
     update_iterator_cache (map_impl st a (\<lambda>m. m\<lparr>cache := ds_write (cache m) kv\<rparr>)) a (fst kv)
       refresh_params"

text \<open>\<^verbatim>\<open>session::read\<close> (549-590).\<close>

definition session_read ::
  "('k::linorder, 'v) state \<Rightarrow> session \<Rightarrow> 'k \<Rightarrow> (('k, 'v) state \<times> ('k, 'v) key_value) result" where
  "session_read st s key =
     (case s of
        None \<Rightarrow> ret (st, None)
      | Some a \<Rightarrow>
          (case walk (impls st) key (Some a) of
             None \<Rightarrow> None
           | Some (Walk_deleted l) \<Rightarrow> ret (st, None)
           | Some (Walk_found l kv) \<Rightarrow>
               if l \<noteq> a then bind_res (cache_found st a kv) (\<lambda>st'. ret (st', Some kv))
               else ret (st, Some kv)
           | Some Walk_miss \<Rightarrow>
               (case backing_data_store (impls st a) of
                  None \<Rightarrow> ret (st, None)
                | Some b \<Rightarrow>
                    (case ds_read (stores st b) key of
                       None \<Rightarrow> ret (st, None)
                     | Some kv \<Rightarrow> bind_res (cache_found st a kv) (\<lambda>st'. ret (st', Some kv))))))"

text \<open>\<^verbatim>\<open>session::write\<close> (592-603); \<open>write\<close> is a keyword of Isabelle.\<close>

definition session_write :: "('k::linorder, 'v) state \<Rightarrow> session \<Rightarrow> 'k \<times> 'v \<Rightarrow> ('k, 'v) state result" where
  "session_write st s kv =
     (case s of
        None \<Rightarrow> ret st
      | Some a \<Rightarrow>
          update_iterator_cache
            (map_impl st a (\<lambda>m. m\<lparr>updated_keys := us_emplace (fst kv) (updated_keys m),
                                   deleted_keys := us_erase (fst kv) (deleted_keys m),
                                   cache := ds_write (cache m) kv\<rparr>))
            a (fst kv)
            \<lparr>prime_only = False, recalculate = True, mark_deleted = False, overwrite = True\<rparr>)"

text \<open>\<^verbatim>\<open>session::contains\<close> (605-631). Line 630 dereferences \<^verbatim>\<open>m_impl->backing_data_store\<close>
  without a test.\<close>

definition session_contains ::
  "('k::linorder, 'v) state \<Rightarrow> session \<Rightarrow> 'k \<Rightarrow> (('k, 'v) state \<times> bool) result" where
  "session_contains st s key =
     (case s of
        None \<Rightarrow> ret (st, False)
      | Some a \<Rightarrow>
          (case walk (impls st) key (Some a) of
             None \<Rightarrow> None
           | Some (Walk_deleted l) \<Rightarrow> ret (st, False)
           | Some (Walk_found l kv) \<Rightarrow>
               bind_res (update_iterator_cache st a key refresh_params) (\<lambda>st'. ret (st', True))
           | Some Walk_miss \<Rightarrow>
               (case backing_data_store (impls st a) of
                  None \<Rightarrow> fault Null_backing_store
                | Some b \<Rightarrow> ret (st, ds_contains (stores st b) key))))"

text \<open>\<^verbatim>\<open>session::erase\<close> (633-643).\<close>

definition session_erase :: "('k::linorder, 'v) state \<Rightarrow> session \<Rightarrow> 'k \<Rightarrow> ('k, 'v) state result" where
  "session_erase st s key =
     (case s of
        None \<Rightarrow> ret st
      | Some a \<Rightarrow>
          update_iterator_cache
            (map_impl st a (\<lambda>m. m\<lparr>deleted_keys := us_emplace key (deleted_keys m),
                                   updated_keys := us_erase key (updated_keys m),
                                   cache := ds_erase (cache m) key\<rparr>))
            a key
            \<lparr>prime_only = False, recalculate = True, mark_deleted = True, overwrite = True\<rparr>)"

text \<open>\<^verbatim>\<open>session_impl::clear\<close> (387-393) and \<^verbatim>\<open>session::clear\<close> (645-651).\<close>

definition clear_impl :: "('k, 'v) session_impl \<Rightarrow> ('k, 'v) session_impl" where
  "clear_impl m = m\<lparr>deleted_keys := [], updated_keys := [], cache := [], iterator_cache := []\<rparr>"

definition session_clear :: "('k, 'v) state \<Rightarrow> session \<Rightarrow> ('k, 'v) state" where
  "session_clear st s = (case s of None \<Rightarrow> st | Some a \<Rightarrow> map_impl st a clear_impl)"

text \<open>The loop of the batch \<^verbatim>\<open>read\<close> (669-699) over the keys, with \<open>kvs\<close> and \<open>not_found\<close>.
  A key whose walk ends at a tombstone sets \<open>deleted\<close> and leaves \<open>found\<close> false.\<close>

fun read_loop ::
  "('k::linorder, 'v) state \<Rightarrow> addr \<Rightarrow> 'k list \<Rightarrow> ('k \<times> 'v) list \<Rightarrow> 'k list
     \<Rightarrow> (('k, 'v) state \<times> ('k \<times> 'v) list \<times> 'k list) result" where
  "read_loop st a [] kvs not_found = ret (st, kvs, not_found)"
| "read_loop st a (key # keys) kvs not_found =
     (case walk (impls st) key (Some a) of
        None \<Rightarrow> None
      | Some (Walk_deleted l) \<Rightarrow> read_loop st a keys kvs (us_emplace key not_found)
      | Some (Walk_found l kv) \<Rightarrow>
          if l \<noteq> a
          then bind_res (cache_found st a kv) (\<lambda>st'. read_loop st' a keys (kvs @ [kv]) not_found)
          else read_loop st a keys (kvs @ [kv]) not_found
      | Some Walk_miss \<Rightarrow> read_loop st a keys kvs (us_emplace key not_found))"

text \<open>The batch \<^verbatim>\<open>session::read\<close> (658-713): the key/values found and the keys not found.\<close>

definition session_read_batch ::
  "('k::linorder, 'v) state \<Rightarrow> session \<Rightarrow> 'k list
     \<Rightarrow> (('k, 'v) state \<times> ('k \<times> 'v) list \<times> 'k list) result" where
  "session_read_batch st s keys =
     (case s of
        None \<Rightarrow> ret (st, [], [])
      | Some a \<Rightarrow>
          bind_res (read_loop st a keys [] []) (\<lambda>(st1, kvs, not_found).
            case backing_data_store (impls st1 a) of
              None \<Rightarrow> ret (st1, kvs, not_found)
            | Some b \<Rightarrow>
                (let (found, missing) = ds_read_batch (stores st1 b) not_found;
                     st2 = (if found \<noteq> []
                            then map_impl st1 a (\<lambda>m. m\<lparr>cache := ds_write_batch (cache m) found\<rparr>)
                            else st1)
                 in ret (st2, kvs @ found, missing))))"

text \<open>The batch \<^verbatim>\<open>session::write\<close> (719-728) and \<^verbatim>\<open>session::erase\<close> (734-743).\<close>

fun session_write_batch ::
  "('k::linorder, 'v) state \<Rightarrow> session \<Rightarrow> ('k \<times> 'v) list \<Rightarrow> ('k, 'v) state result" where
  "session_write_batch st s [] = ret st"
| "session_write_batch st s (kv # kvs) =
     (case s of
        None \<Rightarrow> ret st
      | Some a \<Rightarrow> bind_res (session_write st s kv) (\<lambda>st'. session_write_batch st' s kvs))"

fun session_erase_batch ::
  "('k::linorder, 'v) state \<Rightarrow> session \<Rightarrow> 'k list \<Rightarrow> ('k, 'v) state result" where
  "session_erase_batch st s [] = ret st"
| "session_erase_batch st s (key # keys) =
     (case s of
        None \<Rightarrow> ret st
      | Some a \<Rightarrow> bind_res (session_erase st s key) (\<lambda>st'. session_erase_batch st' s keys))"

section \<open>The chain of sessions\<close>

text \<open>\<^verbatim>\<open>session_impl::undo\<close> (341-356) and \<^verbatim>\<open>session::undo\<close> (420-427).\<close>

definition undo_impl :: "('k, 'v) state \<Rightarrow> addr \<Rightarrow> ('k, 'v) state" where
  "undo_impl st a =
     (let st1 = (case parent (impls st a) of
                   None \<Rightarrow> st
                 | Some p \<Rightarrow> map_impl st p (\<lambda>m. m\<lparr>child := child (impls st a)\<rparr>));
          st2 = (case child (impls st1 a) of
                   None \<Rightarrow> st1
                 | Some c \<Rightarrow> map_impl st1 c (\<lambda>m. m\<lparr>parent := parent (impls st1 a)\<rparr>))
      in map_impl st2 a
           (\<lambda>m. clear_impl (m\<lparr>parent := None, child := None, backing_data_store := None\<rparr>)))"

definition session_undo :: "('k, 'v) state \<Rightarrow> session \<Rightarrow> ('k, 'v) state" where
  "session_undo st s = (case s of None \<Rightarrow> st | Some a \<Rightarrow> undo_impl st a)"

text \<open>\<^verbatim>\<open>session_impl::commit\<close> (358-385) and \<^verbatim>\<open>session::commit\<close> (540-547). The lambda
  \<^verbatim>\<open>write_through\<close> runs on the parent as a session, or on the backing store.\<close>

definition commit_impl :: "('k::linorder, 'v) state \<Rightarrow> addr \<Rightarrow> ('k, 'v) state result" where
  "commit_impl st a =
     (if parent (impls st a) = None \<and> backing_data_store (impls st a) = None then ret st
      else if updated_keys (impls st a) = [] \<and> deleted_keys (impls st a) = [] then ret st
      else
        (case parent (impls st a) of
           Some p \<Rightarrow>
             bind_res (session_erase_batch st (Some p) (deleted_keys (impls st a))) (\<lambda>st1.
             bind_res (session_write_batch st1 (Some p)
                         (ds_entries_for (cache (impls st1 a)) (updated_keys (impls st1 a))))
               (\<lambda>st2. ret (map_impl st2 a clear_impl)))
         | None \<Rightarrow>
             (case backing_data_store (impls st a) of
                None \<Rightarrow> ret st
              | Some b \<Rightarrow>
                  (let ds1 = ds_erase_batch (stores st b) (deleted_keys (impls st a));
                       ds2 = ds_write_batch ds1
                               (ds_entries_for (cache (impls st a)) (updated_keys (impls st a)))
                   in ret (map_impl (st\<lparr>stores := (stores st)(b := ds2)\<rparr>) a clear_impl)))))"

definition session_commit :: "('k::linorder, 'v) state \<Rightarrow> session \<Rightarrow> ('k, 'v) state result" where
  "session_commit st s = (case s of None \<Rightarrow> ret st | Some a \<Rightarrow> commit_impl st a)"

text \<open>\<^verbatim>\<open>session_impl::prime_cache\<close> (315-334).\<close>

partial_function (option) prime_cache ::
  "('k, 'v) state \<Rightarrow> addr \<Rightarrow> ('k, 'v) state option" where
  "prime_cache st a =
     (let keys_to_remove =
            filter (\<lambda>key. key \<notin> set (updated_keys (impls st a))) (map fst (cache (impls st a)));
          st1 = map_impl st a (\<lambda>m. m\<lparr>iterator_cache := [],
                  cache := (if keys_to_remove \<noteq> [] then ds_erase_batch (cache m) keys_to_remove
                            else cache m)\<rparr>)
      in case child (impls st1 a) of
           None \<Rightarrow> Some st1
         | Some c \<Rightarrow> prime_cache st1 c)"

declare prime_cache.simps [code]

text \<open>The static member \<^verbatim>\<open>session::invalid\<close> (395-399): a session made by the private
  default constructor, whose \<^verbatim>\<open>session_impl\<close> has a default-constructed backing store of
  its own. Its \<^verbatim>\<open>session_impl\<close> is at address 0 and its store is store 0.\<close>

definition invalid_impl :: addr where
  "invalid_impl = 0"

definition invalid :: session where
  "invalid = Some invalid_impl"

definition impl0 :: "('k, 'v) session_impl" where
  "impl0 = \<lparr>parent = None, child = None, backing_data_store = None, cache = [],
            iterator_cache = [], updated_keys = [], deleted_keys = []\<rparr>"

definition init_state :: "('k, 'v) state" where
  "init_state =
     \<lparr>impls = (\<lambda>a. impl0)(invalid_impl := impl0\<lparr>backing_data_store := Some 0\<rparr>),
      stores = (\<lambda>b. []), next_impl = 1, next_store = 1\<rparr>"

text \<open>\<^verbatim>\<open>session::detach\<close> (524-538).\<close>

definition session_detach :: "('k, 'v) state \<Rightarrow> session \<Rightarrow> ('k, 'v) state \<times> session" where
  "session_detach st s =
     (case s of
        None \<Rightarrow> (st, invalid)
      | Some a \<Rightarrow>
          (let current_child = child (impls st a);
               st1 = (case current_child of
                        None \<Rightarrow> st
                      | Some c \<Rightarrow>
                          map_impl st c (\<lambda>m. m\<lparr>parent := None, backing_data_store := None\<rparr>))
           in (map_impl st1 a (\<lambda>m. m\<lparr>child := None\<rparr>), current_child)))"

text \<open>\<^verbatim>\<open>session::attach\<close> (506-522). Line 515 dereferences \<^verbatim>\<open>child.m_impl\<close> without a
  test.\<close>

definition session_attach ::
  "('k, 'v) state \<Rightarrow> session \<Rightarrow> session \<Rightarrow> (('k, 'v) state \<times> session) result" where
  "session_attach st s child_session =
     (case s of
        None \<Rightarrow> ret (st, invalid)
      | Some a \<Rightarrow>
          (let (st1, current_child) = session_detach st s
           in case child_session of
                None \<Rightarrow> fault Null_impl
              | Some c \<Rightarrow>
                  (let st2 = map_impl st1 c (\<lambda>m. m\<lparr>parent := Some a\<rparr>);
                       st3 = map_impl st2 c
                               (\<lambda>m. m\<lparr>backing_data_store := backing_data_store (impls st2 a)\<rparr>);
                       st4 = map_impl st3 a (\<lambda>m. m\<lparr>child := Some c\<rparr>)
                   in case prime_cache st4 c of
                        None \<Rightarrow> None
                      | Some st5 \<Rightarrow> ret (st5, current_child))))"

text \<open>\<^verbatim>\<open>make_session(store)\<close> (270-274) with the constructor at 306-308: a new root over a
  new backing store.\<close>

definition make_session ::
  "('k, 'v) state \<Rightarrow> ('k, 'v) data_store \<Rightarrow> ('k, 'v) state \<times> session" where
  "make_session st pds =
     (st\<lparr>impls := (impls st)(next_impl st := impl0\<lparr>backing_data_store := Some (next_store st)\<rparr>),
         stores := (stores st)(next_store st := pds),
         next_impl := Suc (next_impl st),
         next_store := Suc (next_store st)\<rparr>,
      Some (next_impl st))"

text \<open>\<^verbatim>\<open>make_session(the_session)\<close> (282-289) with the constructors at 295-304 and
  413-415: a new session nested on \<open>the_session\<close>. The constructor unlinks the child the
  parent had; line 287 then links the new session as the child.\<close>

definition make_nested_session ::
  "('k, 'v) state \<Rightarrow> session \<Rightarrow> (('k, 'v) state \<times> session) result" where
  "make_nested_session st the_session =
     (case the_session of
        None \<Rightarrow> fault Null_impl
      | Some p \<Rightarrow>
          (let n = next_impl st;
               st1 = st\<lparr>impls := (impls st)(n := impl0\<lparr>parent := Some p,
                          backing_data_store := backing_data_store (impls st p)\<rparr>),
                        next_impl := Suc n\<rparr>;
               st2 = (case child (impls st1 p) of
                        None \<Rightarrow> st1
                      | Some c \<Rightarrow>
                          map_impl
                            (map_impl st1 c (\<lambda>m. m\<lparr>backing_data_store := None\<rparr>))
                            c (\<lambda>m. m\<lparr>parent := None\<rparr>))
           in case parent (impls st2 n) of
                None \<Rightarrow> fault Null_impl
              | Some q \<Rightarrow> ret (map_impl st2 q (\<lambda>m. m\<lparr>child := Some n\<rparr>), Some n)))"


section \<open>Session iterators\<close>

text \<open>The comparator of \<^verbatim>\<open>find\<close> (904-914); at line 871 its left argument is a real key.\<close>

definition find_comparator :: "'k \<Rightarrow> 'k \<Rightarrow> bool" where
  "find_comparator left right = True"

text \<open>\<^verbatim>\<open>find\<close>, \<^verbatim>\<open>begin\<close>, \<^verbatim>\<open>end\<close>, \<^verbatim>\<open>lower_bound\<close> and \<^verbatim>\<open>upper_bound\<close> of a session
  (900-994).\<close>

definition session_find ::
  "('k::linorder, 'v) state \<Rightarrow> session \<Rightarrow> 'k \<Rightarrow> (('k, 'v) state \<times> 'k session_iterator) result" where
  "session_find st s key = make_iterator st s (ds_find key) find_comparator To_end False"

definition session_begin ::
  "('k::linorder, 'v) state \<Rightarrow> session \<Rightarrow> (('k, 'v) state \<times> 'k session_iterator) result" where
  "session_begin st s = make_iterator st s ds_begin (<) Increment False"

definition session_end ::
  "('k::linorder, 'v) state \<Rightarrow> session \<Rightarrow> (('k, 'v) state \<times> 'k session_iterator) result" where
  "session_end st s = make_iterator st s ds_end (>) To_end False"

definition session_lower_bound ::
  "('k::linorder, 'v) state \<Rightarrow> session \<Rightarrow> 'k \<Rightarrow> (('k, 'v) state \<times> 'k session_iterator) result" where
  "session_lower_bound st s key = make_iterator st s (ds_lower_bound key) (<) Increment False"

definition session_upper_bound ::
  "('k::linorder, 'v) state \<Rightarrow> session \<Rightarrow> 'k \<Rightarrow> (('k, 'v) state \<times> 'k session_iterator) result" where
  "session_upper_bound st s key = make_iterator st s (ds_upper_bound key) (<) Increment False"

text \<open>Positions in the iterator cache: \<^verbatim>\<open>begin\<close>, and \<^verbatim>\<open>++it\<close> and the entry \<^verbatim>\<open>*it\<close> of a
  position. An iterator at \<^verbatim>\<open>end\<close> has no entry and no successor.\<close>

definition ic_begin :: "'k iterator_cache_type \<Rightarrow> 'k option" where
  "ic_begin ic = (case ic of [] \<Rightarrow> None | e # rest \<Rightarrow> Some (fst e))"

definition ic_entry :: "'k iterator_cache_type \<Rightarrow> 'k option \<Rightarrow> iterator_state result" where
  "ic_entry ic it =
     (case it of
        None \<Rightarrow> fault End_iterator
      | Some k \<Rightarrow> (case map_of ic k of None \<Rightarrow> fault Invalid_iterator | Some e \<Rightarrow> ret e))"

definition ic_increment :: "'k::linorder iterator_cache_type \<Rightarrow> 'k option \<Rightarrow> 'k option result" where
  "ic_increment ic it =
     (case it of
        None \<Rightarrow> fault End_iterator
      | Some k \<Rightarrow> ret (ic_begin (dropWhile (\<lambda>e. fst e \<le> k) ic)))"

text \<open>The lambda \<open>test\<close> of \<^verbatim>\<open>move_next_\<close> (1102).\<close>

definition test_next :: "'k iterator_cache_type \<Rightarrow> 'k option \<Rightarrow> bool result" where
  "test_next ic it = bind_res (ic_entry ic it) (\<lambda>e. ret (next_in_cache e))"

text \<open>One round of the loop of \<^verbatim>\<open>move_\<close> (1077-1095): the state, the iterator, and whether
  the loop goes round again. \<open>moved\<close> is lines 1089-1094.\<close>

definition moved ::
  "('k iterator_cache_type \<Rightarrow> 'k option \<Rightarrow> 'k option result) \<Rightarrow> ('k, 'v) state \<Rightarrow> addr
     \<Rightarrow> 'k session_iterator \<Rightarrow> (('k, 'v) state \<times> 'k session_iterator \<times> bool) result" where
  "moved mv st a it =
     bind_res (mv (iterator_cache (impls st a)) (m_active_iterator it)) (\<lambda>pos.
     bind_res (ic_entry (iterator_cache (impls st a)) pos) (\<lambda>e.
       ret (st, it\<lparr>m_active_iterator := pos\<rparr>, \<not> (\<not> deleted e \<or> pos = None))))"

definition move_round ::
  "('k iterator_cache_type \<Rightarrow> 'k option \<Rightarrow> bool result)
     \<Rightarrow> ('k iterator_cache_type \<Rightarrow> 'k option \<Rightarrow> 'k option result)
     \<Rightarrow> ('k::linorder, 'v) state \<Rightarrow> 'k session_iterator
     \<Rightarrow> (('k, 'v) state \<times> 'k session_iterator \<times> bool) result" where
  "move_round test mv st it =
     (case m_active_session it of
        None \<Rightarrow> fault Null_impl
      | Some a \<Rightarrow>
          bind_res (test (iterator_cache (impls st a)) (m_active_iterator it)) (\<lambda>t.
            if \<not> t then
              (case m_active_iterator it of
                 None \<Rightarrow> fault End_iterator
               | Some k \<Rightarrow>
                   bind_res (update_iterator_cache st a k refresh_params) (\<lambda>st1.
                   bind_res (test (iterator_cache (impls st1 a)) (m_active_iterator it)) (\<lambda>t1.
                     if \<not> t1 then ret (st1, it\<lparr>m_active_iterator := None\<rparr>, False)
                     else moved mv st1 a it)))
            else moved mv st a it))"

text \<open>\<^verbatim>\<open>session_iterator::move_\<close> (1071-1096).\<close>

partial_function (option) move_loop ::
  "('k iterator_cache_type \<Rightarrow> 'k option \<Rightarrow> bool result)
     \<Rightarrow> ('k iterator_cache_type \<Rightarrow> 'k option \<Rightarrow> 'k option result)
     \<Rightarrow> ('k::linorder, 'v) state \<Rightarrow> 'k session_iterator
     \<Rightarrow> (('k, 'v) state \<times> 'k session_iterator) result" where
  "move_loop test mv st it =
     (case move_round test mv st it of
        None \<Rightarrow> None
      | Some (Inl e) \<Rightarrow> Some (Inl e)
      | Some (Inr (st', it', again)) \<Rightarrow>
          if again then move_loop test mv st' it' else Some (Inr (st', it')))"

declare move_loop.simps [code]

text \<open>\<^verbatim>\<open>session_iterator::move_next_\<close> (1098-1112) and \<^verbatim>\<open>operator++\<close> (1142-1148).\<close>

definition move_next ::
  "('k::linorder, 'v) state \<Rightarrow> 'k session_iterator
     \<Rightarrow> (('k, 'v) state \<times> 'k session_iterator) result" where
  "move_next st it =
     bind_res (move_loop test_next ic_increment st it) (\<lambda>(st', it').
       case m_active_session it' of
         None \<Rightarrow> fault Null_impl
       | Some a \<Rightarrow>
           ret (st', if m_active_iterator it' = None
                     then it'\<lparr>m_active_iterator := ic_begin (iterator_cache (impls st' a))\<rparr>
                     else it'))"

definition iterator_increment ::
  "('k::linorder, 'v) state \<Rightarrow> 'k session_iterator
     \<Rightarrow> (('k, 'v) state \<times> 'k session_iterator) result" where
  "iterator_increment st it = move_next st it"

text \<open>\<^verbatim>\<open>operator*\<close> (1176-1184).\<close>

definition iterator_deref ::
  "('k::linorder, 'v) state \<Rightarrow> 'k session_iterator
     \<Rightarrow> (('k, 'v) state \<times> ('k, 'v) key_value) result" where
  "iterator_deref st it =
     (case m_active_session it of
        None \<Rightarrow> fault Null_impl
      | Some a \<Rightarrow>
          (case m_active_iterator it of
             None \<Rightarrow> ret (st, None)
           | Some k \<Rightarrow> session_read st (Some a) k))"


section \<open>Chains of layers and the merged view\<close>

text \<open>\<open>chain nx p as\<close>: following the pointer \<open>nx\<close> from \<open>p\<close> visits the addresses \<open>as\<close> in
  this order and then reaches the null pointer.\<close>

fun chain :: "(addr \<Rightarrow> addr option) \<Rightarrow> addr option \<Rightarrow> addr list \<Rightarrow> bool" where
  "chain nx p [] = (p = None)"
| "chain nx p (a # as) = (p = Some a \<and> chain nx (nx a) as)"

text \<open>The walk as the specification words it, over the layers \<open>as\<close> from the session toward
  the root: at each layer, a tombstone for the key ends the walk, else an overlay entry
  for the key ends it.\<close>

fun merged_walk ::
  "(addr \<Rightarrow> ('k, 'v) session_impl) \<Rightarrow> addr list \<Rightarrow> 'k \<Rightarrow> ('k, 'v) walk_result" where
  "merged_walk h [] key = Walk_miss"
| "merged_walk h (a # as) key =
     (if key \<in> set (deleted_keys (h a)) then Walk_deleted a
      else (case ds_read (cache (h a)) key of
              Some kv \<Rightarrow> Walk_found a kv
            | None \<Rightarrow> merged_walk h as key))"

text \<open>The value the overlays of the layers \<open>ls\<close> (from the session toward the root) give a
  key: that of the first layer whose overlay holds the key, unless that layer or a layer
  before it holds a tombstone for the key.\<close>

fun overlay_value :: "('k, 'v) session_impl list \<Rightarrow> 'k \<Rightarrow> 'v option" where
  "overlay_value [] key = None"
| "overlay_value (l # ls) key =
     (if key \<in> set (deleted_keys l) then None
      else (case map_of (cache l) key of
              Some v \<Rightarrow> Some v
            | None \<Rightarrow> overlay_value ls key))"

text \<open>What an operation returns, without the state it leaves.\<close>

definition returned :: "('s \<times> 'a) result \<Rightarrow> 'a result" where
  "returned r = map_option (map_sum id snd) r"

text \<open>The \<^verbatim>\<open>session_impl\<close> a handle refers to.\<close>

definition layer :: "('k, 'v) state \<Rightarrow> session \<Rightarrow> ('k, 'v) session_impl" where
  "layer st s = (case s of None \<Rightarrow> impl0 | Some a \<Rightarrow> impls st a)"

section \<open>Example states\<close>

text \<open>A root session at address 1 over the backing store \<open>[(1, 10)]\<close>, whose overlay
  holds the entry \<open>(2, 20)\<close> it wrote and a tombstone for key 4, and a session at address
  2 nested on it, which wrote \<open>(3, 30)\<close>.\<close>

definition two_layers :: "(nat, nat) state" where
  "two_layers =
     \<lparr>impls = (\<lambda>a. impl0)
        (0 := impl0\<lparr>backing_data_store := Some 0\<rparr>,
         1 := impl0\<lparr>child := Some 2, backing_data_store := Some 1, cache := [(2, 20)],
                    updated_keys := [2], deleted_keys := [4]\<rparr>,
         2 := impl0\<lparr>parent := Some 1, backing_data_store := Some 1, cache := [(3, 30)],
                    updated_keys := [3]\<rparr>),
      stores = (\<lambda>b. [])(1 := [(1, 10)]), next_impl = 3, next_store = 2\<rparr>"

text \<open>The state with the iterator cache of the session at \<open>a\<close> replaced.\<close>

definition set_ic :: "('k, 'v) state \<Rightarrow> addr \<Rightarrow> 'k iterator_cache_type \<Rightarrow> ('k, 'v) state" where
  "set_ic st a ic = map_impl st a (\<lambda>m. m\<lparr>iterator_cache := ic\<rparr>)"

text \<open>The session at \<open>a\<close> has a backing store, its parents are the finite chain \<open>as\<close>
  (which ends at the root), and the children of the root are the finite chain \<open>cs\<close>: the
  loops of \<^verbatim>\<open>make_iterator_\<close> on this session end, and line 854 has a store to
  dereference.\<close>

definition iterable :: "('k, 'v) state \<Rightarrow> addr \<Rightarrow> addr list \<Rightarrow> addr list \<Rightarrow> bool" where
  "iterable st a as cs =
     (backing_data_store (impls st a) \<noteq> None
      \<and> chain (\<lambda>x. parent (impls st x)) (Some a) as
      \<and> chain (\<lambda>x. child (impls st x)) (Some (last as)) cs)"

text \<open>Lines 493-503 of \<^verbatim>\<open>update_iterator_cache\<close> as a function of the iterator cache.\<close>

definition link_bounds ::
  "'k::linorder \<Rightarrow> 'k option \<Rightarrow> 'k option \<Rightarrow> 'k iterator_cache_type \<Rightarrow> 'k iterator_cache_type" where
  "link_bounds key lo hi ic =
     (let ic4 = (case lo of
                   None \<Rightarrow> ic
                 | Some l \<Rightarrow> ic_modify key (\<lambda>e. e\<lparr>previous_in_cache := True\<rparr>)
                              (ic_modify l (\<lambda>e. e\<lparr>next_in_cache := True\<rparr>) (try_emplace l ic)))
      in case hi of
           None \<Rightarrow> ic4
         | Some u \<Rightarrow> ic_modify key (\<lambda>e. e\<lparr>next_in_cache := True\<rparr>)
                      (ic_modify u (\<lambda>e. e\<lparr>previous_in_cache := True\<rparr>) (try_emplace u ic4)))"

text \<open>\<open>only_layer st st' a\<close>: the states differ at most in the contents of the session at \<open>a\<close>
  (its overlay, key sets and iterator cache); its links and all other sessions and the
  stores are the same.\<close>

definition only_layer :: "('k, 'v) state \<Rightarrow> ('k, 'v) state \<Rightarrow> addr \<Rightarrow> bool" where
  "only_layer st st' a =
     (stores st' = stores st \<and> next_impl st' = next_impl st \<and> next_store st' = next_store st
      \<and> (\<forall>x. x \<noteq> a \<longrightarrow> impls st' x = impls st x)
      \<and> parent (impls st' a) = parent (impls st a)
      \<and> child (impls st' a) = child (impls st a)
      \<and> backing_data_store (impls st' a) = backing_data_store (impls st a))"

text \<open>What a destination holds for each key once a layer \<open>l\<close> has been written through to
  it, the destination having held \<open>m\<close>: first every key of the layer's deleted set is
  erased, then the overlay entries whose keys are in the layer's updated set are
  written.\<close>

definition written_through :: "('k \<rightharpoonup> 'v) \<Rightarrow> ('k, 'v) session_impl \<Rightarrow> ('k \<rightharpoonup> 'v)" where
  "written_through m l =
     (\<lambda>k. if k \<in> set (updated_keys l) \<and> map_of (cache l) k \<noteq> None then map_of (cache l) k
          else if k \<in> set (deleted_keys l) then None
          else m k)"

text \<open>The keys of the updated set of a layer for which its overlay holds an entry.\<close>

definition authored :: "('k, 'v) session_impl \<Rightarrow> 'k set" where
  "authored l = {k \<in> set (updated_keys l). map_of (cache l) k \<noteq> None}"

text \<open>The updated set and the deleted set of every layer are disjoint.\<close>

definition keys_disjoint :: "('k, 'v) state \<Rightarrow> bool" where
  "keys_disjoint st =
     (\<forall>a. set (updated_keys (impls st a)) \<inter> set (deleted_keys (impls st a)) = {})"

text \<open>The public operations the invariant is about, with the two ways of making a session,
  each with the handle it is called on; a sequence of operations runs until one does not
  return.\<close>

datatype ('k, 'v) operation =
    Write session "'k \<times> 'v"
  | Erase session 'k
  | Write_batch session "('k \<times> 'v) list"
  | Erase_batch session "'k list"
  | Read session 'k
  | Commit session
  | Clear session
  | Undo session
  | New_root "('k, 'v) data_store"
  | Nest session

fun apply_operation ::
  "('k::linorder, 'v) state \<Rightarrow> ('k, 'v) operation \<Rightarrow> ('k, 'v) state result" where
  "apply_operation st (Write s kv) = session_write st s kv"
| "apply_operation st (Erase s key) = session_erase st s key"
| "apply_operation st (Write_batch s kvs) = session_write_batch st s kvs"
| "apply_operation st (Erase_batch s keys) = session_erase_batch st s keys"
| "apply_operation st (Read s key) = bind_res (session_read st s key) (\<lambda>(st', kv). ret st')"
| "apply_operation st (Commit s) = session_commit st s"
| "apply_operation st (Clear s) = ret (session_clear st s)"
| "apply_operation st (Undo s) = ret (session_undo st s)"
| "apply_operation st (New_root pds) = ret (fst (make_session st pds))"
| "apply_operation st (Nest s) = bind_res (make_nested_session st s) (\<lambda>(st', s'). ret st')"

fun run :: "('k::linorder, 'v) state \<Rightarrow> ('k, 'v) operation list \<Rightarrow> ('k, 'v) state result" where
  "run st [] = ret st"
| "run st (op # ops) =
     (case apply_operation st op of
        None \<Rightarrow> None
      | Some (Inl e) \<Rightarrow> Some (Inl e)
      | Some (Inr st') \<Rightarrow> run st' ops)"

text \<open>Whether an operation returned.\<close>

definition is_ret :: "'a result \<Rightarrow> bool" where
  "is_ret r = (case r of Some (Inr x) \<Rightarrow> True | _ \<Rightarrow> False)"

text \<open>The updated and the deleted set of a layer, and a sequence of operations that creates
  a root session and a nested session, writes and erases in the nested one, and commits it.\<close>

definition key_sets :: "('k, 'v) state \<Rightarrow> addr \<Rightarrow> 'k list \<times> 'k list" where
  "key_sets st a = (updated_keys (impls st a), deleted_keys (impls st a))"

definition example_operations :: "(nat, nat) operation list" where
  "example_operations =
     [New_root [(1, 10)], Nest (Some 1), Write (Some 2) (5, 50), Erase (Some 2) 1,
      Commit (Some 2)]"

text \<open>The merged view of the session at \<open>a\<close> whose layers toward the root are \<open>as\<close>: what
  \<^verbatim>\<open>read\<close> and \<^verbatim>\<open>contains\<close> are specified to give for a key, from the walk over the
  layers and the backing store.\<close>

definition merged_read ::
  "('k, 'v) state \<Rightarrow> addr list \<Rightarrow> addr \<Rightarrow> 'k \<Rightarrow> ('k, 'v) key_value" where
  "merged_read st as a key =
     (case merged_walk (impls st) as key of
        Walk_deleted l \<Rightarrow> None
      | Walk_found l kv \<Rightarrow> Some kv
      | Walk_miss \<Rightarrow>
          (case backing_data_store (impls st a) of
             None \<Rightarrow> None
           | Some b \<Rightarrow> ds_read (stores st b) key))"

definition merged_contains ::
  "('k, 'v) state \<Rightarrow> addr list \<Rightarrow> addr \<Rightarrow> 'k \<Rightarrow> bool" where
  "merged_contains st as a key =
     (case merged_walk (impls st) as key of
        Walk_deleted l \<Rightarrow> False
      | Walk_found l kv \<Rightarrow> True
      | Walk_miss \<Rightarrow>
          (case backing_data_store (impls st a) of
             None \<Rightarrow> False
           | Some b \<Rightarrow> ds_contains (stores st b) key))"

section \<open>Properties of the containers\<close>

lemma map_of_ds_erase: "map_of (ds_erase ds k) = (map_of ds)(k := None)"
  by (induction ds) (auto simp: ds_erase_def)

lemma map_of_insort_key:
  "map_of xs k = None \<Longrightarrow> map_of (insort_key fst (k, v) xs) = (map_of xs)(k \<mapsto> v)"
  by (induction xs) (auto split: if_splits)

lemma map_of_ds_write: "map_of (ds_write ds kv) = (map_of ds)(fst kv \<mapsto> snd kv)"
  using map_of_insort_key [of "ds_erase ds (fst kv)" "fst kv" "snd kv"]
  by (simp add: ds_write_def map_of_ds_erase)

lemma map_of_ds_write_batch:
  "map_of (ds_write_batch ds kvs) = map_of ds ++ map_of (rev kvs)"
proof (induction kvs arbitrary: ds)
  case Nil
  then show ?case by (simp add: ds_write_batch_def)
next
  case (Cons kv kvs)
  have "map_of (ds_write_batch (ds_write ds kv) kvs) = map_of (ds_write ds kv) ++ map_of (rev kvs)"
    using Cons by simp
  then show ?case
    by (cases kv)
       (auto simp: ds_write_batch_def map_of_ds_write fun_eq_iff map_add_def split: option.splits)
qed

lemma map_of_rev_keyed:
  "map_of (rev (List.map_filter (\<lambda>key. map_option (Pair key) (f key)) keys)) k
     = (if k \<in> set keys then f k else None)"
proof (induction keys)
  case Nil
  then show ?case by simp
next
  case (Cons key keys)
  then show ?case
    by (cases "f key") (auto simp: map_add_def split: option.splits)
qed

section \<open>Properties of the walk\<close>

lemma walk_chain:
  "chain (\<lambda>x. parent (h x)) p as \<Longrightarrow> walk h key p = Some (merged_walk h as key)"
proof (induction as arbitrary: p)
  case Nil
  then show ?case by (simp add: walk.simps)
next
  case (Cons a as)
  then have p: "p = Some a" and rest: "chain (\<lambda>x. parent (h x)) (parent (h a)) as" by simp_all
  show ?case
    using Cons.IH [OF rest] p
    by (subst walk.simps) (simp split: option.splits)
qed

lemma merged_walk_overlay:
  "(case merged_walk h as key of Walk_found l kv \<Rightarrow> Some kv | _ \<Rightarrow> None)
     = map_option (Pair key) (overlay_value (map h as) key)"
  by (induction as) (auto simp: ds_read_def split: option.splits)

lemma write_to_results_chain:
  assumes "chain (\<lambda>x. parent (h x)) (Some a) as"
  shows "write_to_results h a keys
           = Some (List.map_filter (\<lambda>key. map_option (Pair key) (overlay_value (map h as) key)) keys)"
proof (induction keys)
  case Nil
  then show ?case by simp
next
  case (Cons key keys)
  have w: "walk h key (Some a) = Some (merged_walk h as key)"
    by (rule walk_chain [OF assms])
  show ?case
    using Cons merged_walk_overlay [of h as key]
    by (cases "merged_walk h as key"; cases "overlay_value (map h as) key")
       (auto simp: w)
qed

section \<open>Results, and the iterator computations\<close>

lemma bind_res_ret [simp]: "bind_res (ret x) f = f x"
  by (simp add: bind_res_def ret_def)

lemma bind_res_fault [simp]: "bind_res (fault e) f = fault e"
  by (simp add: bind_res_def fault_def)

lemma ret_eq [simp]: "(ret x = ret y) = (x = y)"
  by (simp add: ret_def)

lemma ret_neq_fault [simp]: "ret x \<noteq> fault e" "fault e \<noteq> ret x"
  by (simp_all add: ret_def fault_def)

lemma root_of_chain:
  "chain (\<lambda>x. parent (h x)) (Some a) as \<Longrightarrow> root_of h a = Some (last as)"
proof (induction as arbitrary: a)
  case Nil
  then show ?case by simp
next
  case (Cons b bs)
  then have ab: "b = a" and rest: "chain (\<lambda>x. parent (h x)) (parent (h a)) bs" by simp_all
  show ?case
  proof (cases "parent (h a)")
    case None
    with rest have "bs = []" by (cases bs) simp_all
    with None ab show ?thesis by (subst root_of.simps) simp
  next
    case (Some p)
    with rest have "bs \<noteq> []" by (cases bs) simp_all
    with Some ab Cons.IH [of p] rest show ?thesis by (subst root_of.simps) simp
  qed
qed

lemma deleted_loop_total:
  "chain (\<lambda>x. child (h x)) c cs \<Longrightarrow> \<exists>b. deleted_loop h m key c r = Some b"
proof (induction cs arbitrary: c r)
  case Nil
  then show ?case by (subst deleted_loop.simps) simp
next
  case (Cons a as)
  then have c: "c = Some a" and rest: "chain (\<lambda>x. child (h x)) (child (h a)) as" by simp_all
  show ?case
    using Cons.IH [OF rest] c
    by (subst deleted_loop.simps) (simp add: Let_def)
qed

lemma deleted_lambda_total:
  "chain (\<lambda>x. child (h x)) (Some root) cs \<Longrightarrow> \<exists>b. deleted_lambda h m root key = Some b"
  unfolding deleted_lambda_def
  by (cases cs) (auto intro: deleted_loop_total)

lemma find_first_not_total:
  assumes "\<And>k. \<exists>b. predicate k = Some b"
  shows "\<exists>r. find_first_not predicate mv it = Some r"
proof (induction it rule: length_induct)
  case (1 it)
  show ?case
  proof (cases it)
    case Nil
    then show ?thesis by (subst find_first_not.simps) simp
  next
    case (Cons e rest)
    obtain b where b: "predicate (fst e) = Some b" using assms by blast
    have "length (apply_move mv (e # rest)) < length it"
      using Cons by (cases mv) simp_all
    then obtain r where "find_first_not predicate mv (apply_move mv (e # rest)) = Some r"
      using 1 by blast
    then show ?thesis
      using Cons b by (subst find_first_not.simps) (cases b; simp)
  qed
qed

lemma layers_loop_total:
  assumes d: "\<And>k. \<exists>b. deleted_lambda h m root k = Some b"
  shows "chain (\<lambda>x. child (h x)) c cs
           \<Longrightarrow> \<exists>r. layers_loop h m root predicate comparator mv c ck = Some r"
proof (induction cs arbitrary: c ck)
  case Nil
  then show ?case by (subst layers_loop.simps) simp
next
  case (Cons a as)
  then have c: "c = Some a" and rest: "chain (\<lambda>x. child (h x)) (child (h a)) as" by simp_all
  obtain r where r: "find_first_not (deleted_lambda h m root) mv (predicate (cache (h a))) = Some r"
    using find_first_not_total [of "deleted_lambda h m root"] d by blast
  show ?case
    using Cons.IH [OF rest] c r
    by (subst layers_loop.simps) (cases r; simp add: Let_def)
qed

lemma find_first_not_end: "find_first_not predicate mv [] = Some None"
  by (subst find_first_not.simps) simp

lemma layers_loop_end:
  "chain (\<lambda>x. child (h x)) c cs
     \<Longrightarrow> layers_loop h m root ds_end comparator mv c ck = Some ck"
proof (induction cs arbitrary: c)
  case Nil
  then show ?case by (subst layers_loop.simps) simp
next
  case (Cons a as)
  then have c: "c = Some a" and rest: "chain (\<lambda>x. child (h x)) (child (h a)) as" by simp_all
  have e: "ds_end (cache (h a)) = []" by (simp add: ds_end_def)
  show ?case
    using Cons.IH [OF rest] c
    by (subst layers_loop.simps) (simp add: e find_first_not_end)
qed

lemma best_key_total:
  assumes "iterable st a as cs"
  shows "\<exists>k. best_key st a predicate comparator mv = ret k"
proof -
  from assms obtain b where b: "backing_data_store (impls st a) = Some b"
    and pc: "chain (\<lambda>x. parent (impls st x)) (Some a) as"
    and cc: "chain (\<lambda>x. child (impls st x)) (Some (last as)) cs"
    by (auto simp: iterable_def)
  have root: "root_of (impls st) a = Some (last as)" by (rule root_of_chain [OF pc])
  have d: "\<exists>b. deleted_lambda (impls st) a (last as) k = Some b" for k
    by (rule deleted_lambda_total [OF cc])
  obtain ck where ck: "find_first_not (deleted_lambda (impls st) a (last as)) mv
                         (predicate (stores st b)) = Some ck"
    using find_first_not_total [of "deleted_lambda (impls st) a (last as)"] d by blast
  obtain r where "layers_loop (impls st) a (last as) predicate comparator mv (Some (last as)) ck
                    = Some r"
    using layers_loop_total [OF d cc] by blast
  then show ?thesis
    by (simp add: best_key_def root b ck ret_def)
qed

lemma best_key_end:
  assumes "iterable st a as cs"
  shows "best_key st a ds_end comparator mv = ret None"
proof -
  from assms obtain b where b: "backing_data_store (impls st a) = Some b"
    and pc: "chain (\<lambda>x. parent (impls st x)) (Some a) as"
    and cc: "chain (\<lambda>x. child (impls st x)) (Some (last as)) cs"
    by (auto simp: iterable_def)
  have root: "root_of (impls st) a = Some (last as)" by (rule root_of_chain [OF pc])
  have e: "ds_end (stores st b) = []" by (simp add: ds_end_def)
  show ?thesis
    by (simp add: best_key_def root b e find_first_not_end ret_def layers_loop_end [OF cc])
qed

lemma impls_set_ic [simp]:
  "impls (set_ic st a ic) = (impls st)(a := (impls st a)\<lparr>iterator_cache := ic\<rparr>)"
  by (simp add: set_ic_def map_impl_def)

lemma stores_set_ic [simp]: "stores (set_ic st a ic) = stores st"
  by (simp add: set_ic_def map_impl_def)

lemma set_ic_set_ic [simp]: "set_ic (set_ic st a ic) a ic' = set_ic st a ic'"
  by (simp add: set_ic_def map_impl_def)

lemma iterable_set_ic [simp]: "iterable (set_ic st a ic) b as cs = iterable st b as cs"
proof -
  have p: "(\<lambda>x. parent (impls (set_ic st a ic) x)) = (\<lambda>x. parent (impls st x))"
    by (auto simp: fun_eq_iff)
  have c: "(\<lambda>x. child (impls (set_ic st a ic) x)) = (\<lambda>x. child (impls st x))"
    by (auto simp: fun_eq_iff)
  show ?thesis
    unfolding iterable_def p c by simp
qed

lemma map_of_try_emplace:
  "map_of (try_emplace k ic) k' =
     (if k' = k \<and> map_of ic k = None then Some iterator_state0 else map_of ic k')"
  using map_of_insort_key [of ic k iterator_state0]
  by (auto simp: try_emplace_def)

lemma map_of_ic_modify:
  "map_of (ic_modify k f ic) k' = (if k' = k then map_option f (map_of ic k) else map_of ic k')"
  by (induction ic) (auto simp: ic_modify_def)

lemma dom_try_emplace [simp]: "dom (map_of (try_emplace k ic)) = insert k (dom (map_of ic))"
  by (auto simp: map_of_try_emplace dom_def)

lemma dom_ic_modify [simp]: "dom (map_of (ic_modify k f ic)) = dom (map_of ic)"
  by (auto simp: map_of_ic_modify dom_def)

lemma make_iterator_prime_total:
  assumes "iterable st a as cs"
  shows "\<exists>ic it. make_iterator_with update_iterator_cache_prime st (Some a) predicate comparator mv
                   = ret (set_ic st a ic, it)
                 \<and> m_active_session it = Some a
                 \<and> (best_key st a predicate comparator mv = ret None \<longrightarrow> m_active_iterator it = None)
                 \<and> dom (map_of (iterator_cache (impls st a))) \<subseteq> dom (map_of ic)"
proof -
  obtain k where k: "best_key st a predicate comparator mv = ret k"
    using best_key_total [OF assms] by blast
  show ?thesis
  proof (cases k)
    case None
    have e: "set_ic st a (iterator_cache (impls st a)) = st"
      by (simp add: set_ic_def map_impl_def)
    show ?thesis
      apply (rule exI [of _ "iterator_cache (impls st a)"])
      apply (rule exI [of _ "\<lparr>m_active_iterator = None, m_active_session = Some a\<rparr>"])
      using k None by (simp add: make_iterator_with_def e)
  next
    case (Some key)
    let ?ic = "try_emplace key (iterator_cache (impls st a))"
    have u: "update_iterator_cache_prime st a key = ret (set_ic st a ?ic)"
      by (simp add: update_iterator_cache_prime_def set_ic_def map_impl_def)
    obtain e where e: "map_of ?ic key = Some e"
      by (cases "map_of (iterator_cache (impls st a)) key") (auto simp: map_of_try_emplace)
    show ?thesis
      apply (rule exI [of _ ?ic])
      apply (rule exI [of _ "\<lparr>m_active_iterator = (if deleted e then None else Some key),
                               m_active_session = Some a\<rparr>"])
      using k Some by (auto simp: make_iterator_with_def u e)
  qed
qed

lemma map_impl_ic:
  "map_impl st a (\<lambda>m. m\<lparr>iterator_cache := f m\<rparr>) = set_ic st a (f (impls st a))"
  by (simp add: set_ic_def map_impl_def)

lemma iterator_cache_set_ic [simp]: "iterator_cache (impls (set_ic st a ic) a) = ic"
  by simp

lemma iterator_neq_end:
  "m_active_session it = Some a \<Longrightarrow> m_active_iterator e = None
     \<Longrightarrow> iterator_neq it e = ret (m_active_iterator it \<noteq> None)"
  by (simp add: iterator_neq_def iterator_eq_def)

lemma bounds_total:
  assumes "iterable st a as cs"
  shows "\<exists>ic lo hi. bounds st a key = ret (set_ic st a ic, lo, hi)
           \<and> dom (map_of (iterator_cache (impls st a))) \<subseteq> dom (map_of ic)"
proof -
  obtain ic1 lb where 1: "make_iterator_with update_iterator_cache_prime st (Some a)
                            (lower key) (<) Increment = ret (set_ic st a ic1, lb)"
      and lb: "m_active_session lb = Some a"
      and d1: "dom (map_of (iterator_cache (impls st a))) \<subseteq> dom (map_of ic1)"
    using make_iterator_prime_total [OF assms] by blast
  have i1: "iterable (set_ic st a ic1) a as cs" using assms by simp
  obtain ic2 ub where 2: "make_iterator_with update_iterator_cache_prime (set_ic st a ic1) (Some a)
                            (ds_upper_bound key) (<) Increment = ret (set_ic st a ic2, ub)"
      and ub: "m_active_session ub = Some a"
      and d2: "dom (map_of ic1) \<subseteq> dom (map_of ic2)"
    using make_iterator_prime_total [OF i1, of "ds_upper_bound key" "(<)" Increment]
    by (auto simp del: impls_set_ic)
  have i2: "iterable (set_ic st a ic2) a as cs" using assms by simp
  obtain ic3 e where 3: "make_iterator_with update_iterator_cache_prime (set_ic st a ic2) (Some a)
                            ds_end (>) To_end = ret (set_ic st a ic3, e)"
      and e: "m_active_iterator e = None"
      and d3: "dom (map_of ic2) \<subseteq> dom (map_of ic3)"
    using make_iterator_prime_total [OF i2, of ds_end "(>)" To_end] best_key_end [OF i2]
    by (auto simp del: impls_set_ic)
  have "bounds st a key =
          ret (set_ic st a ic3,
               (if m_active_iterator lb \<noteq> None then m_active_iterator lb else None),
               (if m_active_iterator ub \<noteq> None then m_active_iterator ub else None))"
    by (simp add: bounds_def 1 2 3 iterator_neq_end [OF lb e] iterator_neq_end [OF ub e])
  then show ?thesis using d1 d2 d3 by blast
qed

lemma dom_link_bounds: "dom (map_of ic) \<subseteq> dom (map_of (link_bounds key lo hi ic))"
  by (cases lo; cases hi) (auto simp: link_bounds_def)

lemma update_iterator_cache_total:
  assumes "iterable st a as cs"
  shows "\<exists>ic. update_iterator_cache st a key params = ret (set_ic st a ic)
              \<and> key \<in> dom (map_of ic)"
proof -
  define ic1 where "ic1 = try_emplace key (iterator_cache (impls st a))"
  define ic2 where "ic2 = (if overwrite params
              then ic_modify key (\<lambda>e. e\<lparr>deleted := mark_deleted params\<rparr>) ic1 else ic1)"
  have k1: "key \<in> dom (map_of ic1)" by (simp add: ic1_def)
  have k2: "key \<in> dom (map_of ic2)" by (simp add: ic2_def ic1_def)
  then obtain e where e: "map_of ic2 key = Some e" by blast
  have i2: "iterable (set_ic st a ic2) a as cs" using assms by simp
  obtain ic3 lo hi where b: "bounds (set_ic st a ic2) a key = ret (set_ic st a ic3, lo, hi)"
    and d3: "dom (map_of ic2) \<subseteq> dom (map_of ic3)"
    using bounds_total [OF i2, of key] by (auto simp del: impls_set_ic)
  have st1: "map_impl st a (\<lambda>m. m\<lparr>iterator_cache := try_emplace key (iterator_cache m)\<rparr>)
               = set_ic st a ic1"
    by (simp add: map_impl_ic ic1_def)
  have st2: "(if overwrite params
              then map_impl (set_ic st a ic1) a (\<lambda>m. m\<lparr>iterator_cache :=
                     ic_modify key (\<lambda>e. e\<lparr>deleted := mark_deleted params\<rparr>) (iterator_cache m)\<rparr>)
              else set_ic st a ic1) = set_ic st a ic2"
    by (simp add: map_impl_ic ic2_def)
  have k5: "key \<in> dom (map_of (link_bounds key lo hi ic3))"
    using k2 d3 dom_link_bounds [of ic3 key lo hi] by blast
  have "update_iterator_cache st a key params =
          ret (set_ic st a
                 (if prime_only params then ic1
                  else if \<not> recalculate params \<and> next_in_cache e \<and> previous_in_cache e then ic2
                  else link_bounds key lo hi ic3))"
    unfolding update_iterator_cache_def Let_def st1 st2
    by (cases lo; cases hi) (simp_all add: e b map_impl_ic link_bounds_def)
  then show ?thesis using k1 k2 k5 by auto
qed

lemma bind_res_eq_ret:
  "bind_res m f = ret y \<Longrightarrow> \<exists>x. m = ret x \<and> f x = ret y"
  by (auto simp: bind_res_def ret_def split: option.splits sum.splits)

lemma make_iterator_prime_frame:
  assumes "make_iterator_with update_iterator_cache_prime st (Some a) predicate comparator mv
             = ret (st', it)"
  shows "\<exists>ic. st' = set_ic st a ic"
proof -
  from assms obtain k where k: "best_key st a predicate comparator mv = ret k"
    by (auto simp: make_iterator_with_def dest: bind_res_eq_ret)
  have e: "set_ic st a (iterator_cache (impls st a)) = st"
    by (simp add: set_ic_def map_impl_def)
  show ?thesis
  proof (cases k)
    case None
    with assms k have "st' = st" by (simp add: make_iterator_with_def)
    with e show ?thesis by metis
  next
    case (Some key)
    with assms k show ?thesis
      by (auto simp: make_iterator_with_def update_iterator_cache_prime_def map_impl_ic
            split: option.splits)
  qed
qed

lemma bounds_frame:
  assumes "bounds st a key = ret (st', lo, hi)"
  shows "\<exists>ic. st' = set_ic st a ic"
proof -
  from assms obtain st1 lb where 1: "make_iterator_with update_iterator_cache_prime st (Some a)
          (lower key) (<) Increment = ret (st1, lb)"
    and r1: "bind_res (make_iterator_with update_iterator_cache_prime st1 (Some a)
                 (ds_upper_bound key) (<) Increment) (\<lambda>(st2, upper_bound).
     bind_res (make_iterator_with update_iterator_cache_prime st2 (Some a)
                 ds_end (>) To_end) (\<lambda>(st3, end).
     bind_res (iterator_neq lb end) (\<lambda>l.
     bind_res (iterator_neq upper_bound end) (\<lambda>u.
       ret (st3,
            (if l then m_active_iterator lb else None),
            (if u then m_active_iterator upper_bound else None)))))) = ret (st', lo, hi)"
    unfolding bounds_def by (fastforce dest: bind_res_eq_ret)
  from r1 obtain st2 ub where 2: "make_iterator_with update_iterator_cache_prime st1 (Some a)
                 (ds_upper_bound key) (<) Increment = ret (st2, ub)"
    and r2: "bind_res (make_iterator_with update_iterator_cache_prime st2 (Some a)
                 ds_end (>) To_end) (\<lambda>(st3, end).
     bind_res (iterator_neq lb end) (\<lambda>l.
     bind_res (iterator_neq ub end) (\<lambda>u.
       ret (st3,
            (if l then m_active_iterator lb else None),
            (if u then m_active_iterator ub else None))))) = ret (st', lo, hi)"
    by (fastforce dest: bind_res_eq_ret)
  from r2 obtain st3 e where 3: "make_iterator_with update_iterator_cache_prime st2 (Some a)
                 ds_end (>) To_end = ret (st3, e)"
    and r3: "bind_res (iterator_neq lb e) (\<lambda>l.
     bind_res (iterator_neq ub e) (\<lambda>u.
       ret (st3,
            (if l then m_active_iterator lb else None),
            (if u then m_active_iterator ub else None)))) = ret (st', lo, hi)"
    by (fastforce dest: bind_res_eq_ret)
  from r3 have "st' = st3"
    by (auto dest!: bind_res_eq_ret)
  moreover obtain ic1 where "st1 = set_ic st a ic1" using make_iterator_prime_frame [OF 1] by blast
  moreover obtain ic2 where "st2 = set_ic st1 a ic2" using make_iterator_prime_frame [OF 2] by blast
  moreover obtain ic3 where "st3 = set_ic st2 a ic3" using make_iterator_prime_frame [OF 3] by blast
  ultimately show ?thesis by (auto simp del: impls_set_ic)
qed

lemma update_iterator_cache_frame:
  assumes "update_iterator_cache st a key params = ret st'"
  shows "\<exists>ic. st' = set_ic st a ic"
proof -
  define ic1 where "ic1 = try_emplace key (iterator_cache (impls st a))"
  define ic2 where "ic2 = (if overwrite params
              then ic_modify key (\<lambda>e. e\<lparr>deleted := mark_deleted params\<rparr>) ic1 else ic1)"
  have st1: "map_impl st a (\<lambda>m. m\<lparr>iterator_cache := try_emplace key (iterator_cache m)\<rparr>)
               = set_ic st a ic1"
    by (simp add: map_impl_ic ic1_def)
  have st2: "(if overwrite params
              then map_impl (set_ic st a ic1) a (\<lambda>m. m\<lparr>iterator_cache :=
                     ic_modify key (\<lambda>e. e\<lparr>deleted := mark_deleted params\<rparr>) (iterator_cache m)\<rparr>)
              else set_ic st a ic1) = set_ic st a ic2"
    by (simp add: map_impl_ic ic2_def)
  show ?thesis
  proof (cases "prime_only params")
    case True
    with assms show ?thesis
      unfolding update_iterator_cache_def Let_def st1 by auto
  next
    case False
    note np = this
    show ?thesis
    proof (cases "map_of ic2 key")
      case None
      with assms np show ?thesis
        unfolding update_iterator_cache_def Let_def st1 st2 by simp
    next
      case (Some e)
      show ?thesis
      proof (cases "\<not> recalculate params \<and> next_in_cache e \<and> previous_in_cache e")
        case True
        with assms np Some show ?thesis
          unfolding update_iterator_cache_def Let_def st1 st2 by auto
      next
        case False
        let ?link = "\<lambda>st3 lo hi. (case hi of
                None \<Rightarrow> (case lo of
                   None \<Rightarrow> st3
                 | Some l \<Rightarrow> map_impl st3 a (\<lambda>m. m\<lparr>iterator_cache :=
                     ic_modify key (\<lambda>e. e\<lparr>previous_in_cache := True\<rparr>)
                       (ic_modify l (\<lambda>e. e\<lparr>next_in_cache := True\<rparr>)
                          (try_emplace l (iterator_cache m)))\<rparr>))
              | Some u \<Rightarrow> map_impl (case lo of
                   None \<Rightarrow> st3
                 | Some l \<Rightarrow> map_impl st3 a (\<lambda>m. m\<lparr>iterator_cache :=
                     ic_modify key (\<lambda>e. e\<lparr>previous_in_cache := True\<rparr>)
                       (ic_modify l (\<lambda>e. e\<lparr>next_in_cache := True\<rparr>)
                          (try_emplace l (iterator_cache m)))\<rparr>)) a (\<lambda>m. m\<lparr>iterator_cache :=
                     ic_modify key (\<lambda>e. e\<lparr>next_in_cache := True\<rparr>)
                       (ic_modify u (\<lambda>e. e\<lparr>previous_in_cache := True\<rparr>)
                          (try_emplace u (iterator_cache m)))\<rparr>))"
        from assms np Some False
        have u: "bind_res (bounds (set_ic st a ic2) a key)
                   (\<lambda>(st3, lo, hi). ret (?link st3 lo hi)) = ret st'"
          unfolding update_iterator_cache_def Let_def st1 st2 by simp
        from bind_res_eq_ret [OF u] obtain x where
          bx: "bounds (set_ic st a ic2) a key = ret x"
          and rx: "(case x of (st3, lo, hi) \<Rightarrow> ret (?link st3 lo hi)) = ret st'"
          by blast
        obtain st3 lo hi where x: "x = (st3, lo, hi)" by (cases x) auto
        from bx x have b: "bounds (set_ic st a ic2) a key = ret (st3, lo, hi)" by simp
        from rx x have r: "st' = ?link st3 lo hi" by simp
        obtain ic3 where "st3 = set_ic st a ic3"
          using bounds_frame [OF b] by (auto simp del: impls_set_ic)
        with r show ?thesis
          by (cases lo; cases hi) (auto simp: map_impl_ic simp del: impls_set_ic)
      qed
    qed
  qed
qed

section \<open>Effects of the mutators\<close>

lemma only_layer_refl [simp]: "only_layer st st a"
  by (simp add: only_layer_def)

lemma only_layer_trans: "only_layer st st1 a \<Longrightarrow> only_layer st1 st2 a \<Longrightarrow> only_layer st st2 a"
  by (simp add: only_layer_def)

lemma only_layer_links:
  assumes "only_layer st st' a"
  shows "(\<lambda>x. parent (impls st' x)) = (\<lambda>x. parent (impls st x))"
    and "(\<lambda>x. child (impls st' x)) = (\<lambda>x. child (impls st x))"
    and "(\<lambda>x. backing_data_store (impls st' x)) = (\<lambda>x. backing_data_store (impls st x))"
  using assms by (auto simp: only_layer_def fun_eq_iff)

lemma iterable_only_layer:
  assumes "only_layer st st' a"
  shows "iterable st' b as cs = iterable st b as cs"
  using fun_cong [OF only_layer_links(3) [OF assms], of b]
  by (simp add: iterable_def only_layer_links(1,2) [OF assms])

lemma only_layer_other:
  "only_layer st st' a \<Longrightarrow> x \<noteq> a \<Longrightarrow> impls st' x = impls st x"
  by (simp add: only_layer_def)

lemma set_us_emplace [simp]: "set (us_emplace k xs) = insert k (set xs)"
  by (auto simp: us_emplace_def)

lemma set_us_erase [simp]: "set (us_erase k xs) = set xs - {k}"
  by (auto simp: us_erase_def)

lemma session_write_effects:
  assumes "session_write st (Some a) kv = ret st'"
  shows "only_layer st st' a"
    and "updated_keys (impls st' a) = us_emplace (fst kv) (updated_keys (impls st a))"
    and "deleted_keys (impls st' a) = us_erase (fst kv) (deleted_keys (impls st a))"
    and "cache (impls st' a) = ds_write (cache (impls st a)) kv"
proof -
  let ?st1 = "map_impl st a (\<lambda>m. m\<lparr>updated_keys := us_emplace (fst kv) (updated_keys m),
                                   deleted_keys := us_erase (fst kv) (deleted_keys m),
                                   cache := ds_write (cache m) kv\<rparr>)"
  from assms obtain ic where st': "st' = set_ic ?st1 a ic"
    using update_iterator_cache_frame [of ?st1 a "fst kv" _ st']
    by (auto simp: session_write_def simp del: impls_set_ic)
  show "only_layer st st' a"
    by (simp add: st' only_layer_def map_impl_def set_ic_def)
  show "updated_keys (impls st' a) = us_emplace (fst kv) (updated_keys (impls st a))"
    by (simp add: st' map_impl_def)
  show "deleted_keys (impls st' a) = us_erase (fst kv) (deleted_keys (impls st a))"
    by (simp add: st' map_impl_def)
  show "cache (impls st' a) = ds_write (cache (impls st a)) kv"
    by (simp add: st' map_impl_def)
qed

lemma session_erase_effects:
  assumes "session_erase st (Some a) key = ret st'"
  shows "only_layer st st' a"
    and "deleted_keys (impls st' a) = us_emplace key (deleted_keys (impls st a))"
    and "updated_keys (impls st' a) = us_erase key (updated_keys (impls st a))"
    and "cache (impls st' a) = ds_erase (cache (impls st a)) key"
proof -
  let ?st1 = "map_impl st a (\<lambda>m. m\<lparr>deleted_keys := us_emplace key (deleted_keys m),
                                   updated_keys := us_erase key (updated_keys m),
                                   cache := ds_erase (cache m) key\<rparr>)"
  from assms obtain ic where st': "st' = set_ic ?st1 a ic"
    using update_iterator_cache_frame [of ?st1 a key _ st']
    by (auto simp: session_erase_def simp del: impls_set_ic)
  show "only_layer st st' a"
    by (simp add: st' only_layer_def map_impl_def set_ic_def)
  show "deleted_keys (impls st' a) = us_emplace key (deleted_keys (impls st a))"
    by (simp add: st' map_impl_def)
  show "updated_keys (impls st' a) = us_erase key (updated_keys (impls st a))"
    by (simp add: st' map_impl_def)
  show "cache (impls st' a) = ds_erase (cache (impls st a)) key"
    by (simp add: st' map_impl_def)
qed

lemma iterable_map_impl:
  assumes "parent (f (impls st x)) = parent (impls st x)"
    and "child (f (impls st x)) = child (impls st x)"
    and "backing_data_store (f (impls st x)) = backing_data_store (impls st x)"
  shows "iterable (map_impl st x f) a as cs = iterable st a as cs"
proof -
  have "only_layer st (map_impl st x f) x"
    using assms by (simp add: only_layer_def map_impl_def)
  then show ?thesis by (rule iterable_only_layer)
qed

lemma session_write_total:
  assumes "iterable st a as cs"
  shows "\<exists>st'. session_write st (Some a) kv = ret st'"
proof -
  let ?st1 = "map_impl st a (\<lambda>m. m\<lparr>updated_keys := us_emplace (fst kv) (updated_keys m),
                                   deleted_keys := us_erase (fst kv) (deleted_keys m),
                                   cache := ds_write (cache m) kv\<rparr>)"
  have "iterable ?st1 a as cs" using assms by (simp add: iterable_map_impl)
  from update_iterator_cache_total [OF this, of "fst kv"
      "\<lparr>prime_only = False, recalculate = True, mark_deleted = False, overwrite = True\<rparr>"]
  obtain ic where "update_iterator_cache ?st1 a (fst kv)
      \<lparr>prime_only = False, recalculate = True, mark_deleted = False, overwrite = True\<rparr>
      = ret (set_ic ?st1 a ic)" by blast
  then show ?thesis
    by (simp add: session_write_def)
qed

lemma session_erase_total:
  assumes "iterable st a as cs"
  shows "\<exists>st'. session_erase st (Some a) key = ret st'"
proof -
  let ?st1 = "map_impl st a (\<lambda>m. m\<lparr>deleted_keys := us_emplace key (deleted_keys m),
                                   updated_keys := us_erase key (updated_keys m),
                                   cache := ds_erase (cache m) key\<rparr>)"
  have "iterable ?st1 a as cs" using assms by (simp add: iterable_map_impl)
  from update_iterator_cache_total [OF this, of key
      "\<lparr>prime_only = False, recalculate = True, mark_deleted = True, overwrite = True\<rparr>"]
  obtain ic where "update_iterator_cache ?st1 a key
      \<lparr>prime_only = False, recalculate = True, mark_deleted = True, overwrite = True\<rparr>
      = ret (set_ic ?st1 a ic)" by blast
  then show ?thesis
    by (simp add: session_erase_def)
qed

lemma session_erase_batch_effects:
  assumes "session_erase_batch st (Some a) keys = ret st'"
  shows "only_layer st st' a"
    and "set (deleted_keys (impls st' a)) = set (deleted_keys (impls st a)) \<union> set keys"
    and "set (updated_keys (impls st' a)) = set (updated_keys (impls st a)) - set keys"
    and "map_of (cache (impls st' a)) =
           (\<lambda>k. if k \<in> set keys then None else map_of (cache (impls st a)) k)"
proof -
  have "only_layer st st' a
         \<and> set (deleted_keys (impls st' a)) = set (deleted_keys (impls st a)) \<union> set keys
         \<and> set (updated_keys (impls st' a)) = set (updated_keys (impls st a)) - set keys
         \<and> map_of (cache (impls st' a)) =
             (\<lambda>k. if k \<in> set keys then None else map_of (cache (impls st a)) k)"
    using assms
  proof (induction keys arbitrary: st)
    case Nil
    then show ?case by simp
  next
    case (Cons key keys)
    from Cons.prems have "bind_res (session_erase st (Some a) key)
        (\<lambda>st1. session_erase_batch st1 (Some a) keys) = ret st'" by simp
    from bind_res_eq_ret [OF this] obtain st1 where 1: "session_erase st (Some a) key = ret st1"
      and 2: "session_erase_batch st1 (Some a) keys = ret st'"
      by blast
    note e = session_erase_effects [OF 1]
    from Cons.IH [OF 2] have r1: "only_layer st1 st' a"
      and r2: "set (deleted_keys (impls st' a)) = set (deleted_keys (impls st1 a)) \<union> set keys"
      and r3: "set (updated_keys (impls st' a)) = set (updated_keys (impls st1 a)) - set keys"
      and r4: "map_of (cache (impls st' a)) =
                 (\<lambda>k. if k \<in> set keys then None else map_of (cache (impls st1 a)) k)"
      by blast+
    have o: "only_layer st st' a" using e(1) r1 by (rule only_layer_trans)
    have c: "map_of (cache (impls st' a)) =
               (\<lambda>k. if k \<in> set (key # keys) then None else map_of (cache (impls st a)) k)"
      unfolding r4 e(4) by (simp add: map_of_ds_erase fun_eq_iff)
    have d: "set (deleted_keys (impls st' a)) = set (deleted_keys (impls st a)) \<union> set (key # keys)"
      unfolding r2 e(2) by simp
    have u: "set (updated_keys (impls st' a)) = set (updated_keys (impls st a)) - set (key # keys)"
      unfolding r3 e(3) by auto
    show ?case using o c d u by blast
  qed
  then show "only_layer st st' a"
    and "set (deleted_keys (impls st' a)) = set (deleted_keys (impls st a)) \<union> set keys"
    and "set (updated_keys (impls st' a)) = set (updated_keys (impls st a)) - set keys"
    and "map_of (cache (impls st' a)) =
           (\<lambda>k. if k \<in> set keys then None else map_of (cache (impls st a)) k)"
    by blast+
qed

lemma session_write_batch_effects:
  assumes "session_write_batch st (Some a) kvs = ret st'"
  shows "only_layer st st' a"
    and "set (updated_keys (impls st' a)) = set (updated_keys (impls st a)) \<union> fst ` set kvs"
    and "set (deleted_keys (impls st' a)) = set (deleted_keys (impls st a)) - fst ` set kvs"
    and "map_of (cache (impls st' a)) = map_of (cache (impls st a)) ++ map_of (rev kvs)"
proof -
  have "only_layer st st' a
         \<and> set (updated_keys (impls st' a)) = set (updated_keys (impls st a)) \<union> fst ` set kvs
         \<and> set (deleted_keys (impls st' a)) = set (deleted_keys (impls st a)) - fst ` set kvs
         \<and> map_of (cache (impls st' a)) = map_of (cache (impls st a)) ++ map_of (rev kvs)"
    using assms
  proof (induction kvs arbitrary: st)
    case Nil
    then show ?case by simp
  next
    case (Cons kv kvs)
    from Cons.prems have "bind_res (session_write st (Some a) kv)
        (\<lambda>st1. session_write_batch st1 (Some a) kvs) = ret st'" by simp
    from bind_res_eq_ret [OF this] obtain st1 where 1: "session_write st (Some a) kv = ret st1"
      and 2: "session_write_batch st1 (Some a) kvs = ret st'"
      by blast
    note e = session_write_effects [OF 1]
    from Cons.IH [OF 2] have r1: "only_layer st1 st' a"
      and r2: "set (updated_keys (impls st' a)) = set (updated_keys (impls st1 a)) \<union> fst ` set kvs"
      and r3: "set (deleted_keys (impls st' a)) = set (deleted_keys (impls st1 a)) - fst ` set kvs"
      and r4: "map_of (cache (impls st' a)) = map_of (cache (impls st1 a)) ++ map_of (rev kvs)"
      by blast+
    have o: "only_layer st st' a" using e(1) r1 by (rule only_layer_trans)
    have c1: "map_of (cache (impls st1 a)) = (map_of (cache (impls st a)))(fst kv \<mapsto> snd kv)"
      by (simp add: e(4) map_of_ds_write)
    have c: "map_of (cache (impls st' a)) = map_of (cache (impls st a)) ++ map_of (rev (kv # kvs))"
      unfolding r4 c1
      by (cases kv) (simp add: fun_eq_iff map_add_def split: option.splits)
    have u: "set (updated_keys (impls st' a)) = set (updated_keys (impls st a)) \<union> fst ` set (kv # kvs)"
      unfolding r2 e(2) by simp
    have d: "set (deleted_keys (impls st' a)) = set (deleted_keys (impls st a)) - fst ` set (kv # kvs)"
      unfolding r3 e(3) by auto
    show ?case using o c d u by blast
  qed
  then show "only_layer st st' a"
    and "set (updated_keys (impls st' a)) = set (updated_keys (impls st a)) \<union> fst ` set kvs"
    and "set (deleted_keys (impls st' a)) = set (deleted_keys (impls st a)) - fst ` set kvs"
    and "map_of (cache (impls st' a)) = map_of (cache (impls st a)) ++ map_of (rev kvs)"
    by blast+
qed

lemma session_erase_batch_total:
  "iterable st a as cs \<Longrightarrow> \<exists>st'. session_erase_batch st (Some a) keys = ret st'"
proof (induction keys arbitrary: st)
  case Nil
  then show ?case by simp
next
  case (Cons key keys)
  obtain st1 where 1: "session_erase st (Some a) key = ret st1"
    using session_erase_total [OF Cons.prems] by blast
  have "iterable st1 a as cs"
    using Cons.prems by (simp add: iterable_only_layer [OF session_erase_effects(1) [OF 1]])
  from Cons.IH [OF this] show ?case by (simp add: 1)
qed

lemma session_write_batch_total:
  "iterable st a as cs \<Longrightarrow> \<exists>st'. session_write_batch st (Some a) kvs = ret st'"
proof (induction kvs arbitrary: st)
  case Nil
  then show ?case by simp
next
  case (Cons kv kvs)
  obtain st1 where 1: "session_write st (Some a) kv = ret st1"
    using session_write_total [OF Cons.prems] by blast
  have "iterable st1 a as cs"
    using Cons.prems by (simp add: iterable_only_layer [OF session_write_effects(1) [OF 1]])
  from Cons.IH [OF this] show ?case by (simp add: 1)
qed

section \<open>Commit\<close>

lemma map_of_rev_entries:
  "map_of (rev (ds_entries_for ds ks)) k = (if k \<in> set ks then map_of ds k else None)"
proof -
  have "ds_read ds = (\<lambda>key. map_option (Pair key) (map_of ds key))"
    by (simp add: fun_eq_iff ds_read_def)
  then show ?thesis
    using map_of_rev_keyed [of "map_of ds" ks k]
    by (simp add: ds_entries_for_def)
qed

lemma fst_set_entries:
  "fst ` set (ds_entries_for ds ks) = {k \<in> set ks. map_of ds k \<noteq> None}"
  by (induction ks) (auto simp: ds_entries_for_def ds_read_def List.map_filter_simps split: option.splits)

lemma map_of_ds_erase_batch:
  "map_of (ds_erase_batch ds ks) = (\<lambda>k. if k \<in> set ks then None else map_of ds k)"
proof (induction ks arbitrary: ds)
  case Nil
  then show ?case by (simp add: ds_erase_batch_def)
next
  case (Cons key ks)
  have "map_of (ds_erase_batch (ds_erase ds key) ks)
          = (\<lambda>k. if k \<in> set ks then None else map_of (ds_erase ds key) k)"
    by (rule Cons)
  then show ?case
    by (simp add: ds_erase_batch_def map_of_ds_erase fun_eq_iff)
qed

lemma commit_impl_parent:
  assumes par: "parent (impls st a) = Some p"
    and neq: "p \<noteq> a"
    and it: "iterable st p as cs"
    and ne: "\<not> (updated_keys (impls st a) = [] \<and> deleted_keys (impls st a) = [])"
  shows "\<exists>st'. commit_impl st a = ret st'
           \<and> impls st' a = clear_impl (impls st a)
           \<and> map_of (cache (impls st' p))
               = written_through (map_of (cache (impls st p))) (impls st a)
           \<and> set (deleted_keys (impls st' p))
               = (set (deleted_keys (impls st p)) \<union> set (deleted_keys (impls st a)))
                   - authored (impls st a)
           \<and> set (updated_keys (impls st' p))
               = (set (updated_keys (impls st p)) - set (deleted_keys (impls st a)))
                   \<union> authored (impls st a)
           \<and> parent (impls st' p) = parent (impls st p)
           \<and> child (impls st' p) = child (impls st p)
           \<and> backing_data_store (impls st' p) = backing_data_store (impls st p)
           \<and> (\<forall>x. x \<noteq> a \<and> x \<noteq> p \<longrightarrow> impls st' x = impls st x)
           \<and> stores st' = stores st"
proof -
  let ?D = "deleted_keys (impls st a)"
  let ?U = "updated_keys (impls st a)"
  obtain st1 where 1: "session_erase_batch st (Some p) ?D = ret st1"
    using session_erase_batch_total [OF it] by blast
  note e = session_erase_batch_effects [OF 1]
  have a1: "impls st1 a = impls st a"
    using only_layer_other [OF e(1)] neq by simp
  let ?W = "ds_entries_for (cache (impls st a)) ?U"
  have it1: "iterable st1 p as cs" using it by (simp add: iterable_only_layer [OF e(1)])
  obtain st2 where 2: "session_write_batch st1 (Some p) ?W = ret st2"
    using session_write_batch_total [OF it1] by blast
  note w = session_write_batch_effects [OF 2]
  have a2: "impls st2 a = impls st a"
    using only_layer_other [OF w(1)] neq a1 by simp
  have o2: "only_layer st st2 p" using e(1) w(1) by (rule only_layer_trans)
  have r: "commit_impl st a = ret (map_impl st2 a clear_impl)"
    using par ne by (auto simp: commit_impl_def 1 a1 2)
  have c: "map_of (cache (impls st2 p))
             = written_through (map_of (cache (impls st p))) (impls st a)"
    unfolding w(4) e(4)
    by (auto simp: fun_eq_iff map_add_def written_through_def map_of_rev_entries
          split: option.splits)
  have d: "set (deleted_keys (impls st2 p))
             = (set (deleted_keys (impls st p)) \<union> set ?D) - authored (impls st a)"
    unfolding w(3) e(2) by (simp add: fst_set_entries authored_def)
  have u: "set (updated_keys (impls st2 p))
             = (set (updated_keys (impls st p)) - set ?D) \<union> authored (impls st a)"
    unfolding w(2) e(3) by (simp add: fst_set_entries authored_def)
  have l: "parent (impls st2 p) = parent (impls st p)"
      "child (impls st2 p) = child (impls st p)"
      "backing_data_store (impls st2 p) = backing_data_store (impls st p)"
      "stores st2 = stores st"
    using o2 by (simp_all add: only_layer_def)
  have f: "\<forall>x. x \<noteq> a \<and> x \<noteq> p \<longrightarrow> impls st2 x = impls st x"
    using o2 by (simp add: only_layer_def)
  show ?thesis
    apply (rule exI [of _ "map_impl st2 a clear_impl"])
    using neq by (simp add: r map_impl_def a2 c d u l f)
qed

lemma commit_impl_root:
  assumes par: "parent (impls st a) = None"
    and b: "backing_data_store (impls st a) = Some b"
    and ne: "\<not> (updated_keys (impls st a) = [] \<and> deleted_keys (impls st a) = [])"
  shows "\<exists>st'. commit_impl st a = ret st'
           \<and> impls st' a = clear_impl (impls st a)
           \<and> map_of (stores st' b) = written_through (map_of (stores st b)) (impls st a)
           \<and> (\<forall>x. x \<noteq> a \<longrightarrow> impls st' x = impls st x)
           \<and> (\<forall>x. x \<noteq> b \<longrightarrow> stores st' x = stores st x)"
proof -
  let ?ds = "ds_write_batch (ds_erase_batch (stores st b) (deleted_keys (impls st a)))
               (ds_entries_for (cache (impls st a)) (updated_keys (impls st a)))"
  have r: "commit_impl st a = ret (map_impl (st\<lparr>stores := (stores st)(b := ?ds)\<rparr>) a clear_impl)"
    using par b ne by (auto simp: commit_impl_def Let_def)
  have c: "map_of ?ds = written_through (map_of (stores st b)) (impls st a)"
    by (auto simp: map_of_ds_write_batch map_of_ds_erase_batch fun_eq_iff map_add_def
          written_through_def map_of_rev_entries split: option.splits)
  show ?thesis
    apply (rule exI [of _ "map_impl (st\<lparr>stores := (stores st)(b := ?ds)\<rparr>) a clear_impl"])
    by (simp add: r map_impl_def c)
qed

section \<open>The updated and deleted sets stay disjoint\<close>

lemma is_ret_D: "is_ret r \<Longrightarrow> \<exists>x. r = ret x"
  by (auto simp: is_ret_def ret_def split: option.splits sum.splits)

lemma ret_neq_None [simp]: "ret x \<noteq> None" "None \<noteq> ret x"
  by (simp_all add: ret_def)

lemma keys_disjoint_only_layer:
  assumes "keys_disjoint st" and "only_layer st st' a"
    and "set (updated_keys (impls st' a)) \<inter> set (deleted_keys (impls st' a)) = {}"
  shows "keys_disjoint st'"
  unfolding keys_disjoint_def
proof
  fix x
  show "set (updated_keys (impls st' x)) \<inter> set (deleted_keys (impls st' x)) = {}"
  proof (cases "x = a")
    case True
    with assms(3) show ?thesis by simp
  next
    case False
    then have "impls st' x = impls st x" using assms(2) by (simp add: only_layer_def)
    with assms(1) show ?thesis by (simp add: keys_disjoint_def)
  qed
qed

lemma keys_disjoint_map_impl:
  assumes "keys_disjoint st"
    and "set (updated_keys (f (impls st x))) \<inter> set (deleted_keys (f (impls st x))) = {}"
  shows "keys_disjoint (map_impl st x f)"
  using assms by (simp add: keys_disjoint_def map_impl_def)

lemma keys_disjoint_at:
  "keys_disjoint st \<Longrightarrow> set (updated_keys (impls st a)) \<inter> set (deleted_keys (impls st a)) = {}"
  by (simp add: keys_disjoint_def)

lemma keys_disjoint_write:
  assumes "keys_disjoint st" and "session_write st s kv = ret st'"
  shows "keys_disjoint st'"
proof (cases s)
  case None
  with assms show ?thesis by (simp add: session_write_def)
next
  case (Some a)
  note e = session_write_effects [OF assms(2) [unfolded Some]]
  have "set (updated_keys (impls st' a)) \<inter> set (deleted_keys (impls st' a)) = {}"
    unfolding e(2) e(3) using keys_disjoint_at [OF assms(1), of a] by auto
  with assms(1) e(1) show ?thesis by (rule keys_disjoint_only_layer)
qed

lemma keys_disjoint_erase:
  assumes "keys_disjoint st" and "session_erase st s key = ret st'"
  shows "keys_disjoint st'"
proof (cases s)
  case None
  with assms show ?thesis by (simp add: session_erase_def)
next
  case (Some a)
  note e = session_erase_effects [OF assms(2) [unfolded Some]]
  have "set (updated_keys (impls st' a)) \<inter> set (deleted_keys (impls st' a)) = {}"
    unfolding e(2) e(3) using keys_disjoint_at [OF assms(1), of a] by auto
  with assms(1) e(1) show ?thesis by (rule keys_disjoint_only_layer)
qed

lemma session_write_batch_None [simp]: "session_write_batch st None kvs = ret st"
  by (cases kvs) simp_all

lemma session_erase_batch_None [simp]: "session_erase_batch st None keys = ret st"
  by (cases keys) simp_all

lemma keys_disjoint_write_batch:
  assumes "keys_disjoint st" and "session_write_batch st s kvs = ret st'"
  shows "keys_disjoint st'"
proof (cases s)
  case None
  with assms show ?thesis by simp
next
  case (Some a)
  note e = session_write_batch_effects [OF assms(2) [unfolded Some]]
  have "set (updated_keys (impls st' a)) \<inter> set (deleted_keys (impls st' a)) = {}"
    unfolding e(2) e(3) using keys_disjoint_at [OF assms(1), of a] by auto
  with assms(1) e(1) show ?thesis by (rule keys_disjoint_only_layer)
qed

lemma keys_disjoint_erase_batch:
  assumes "keys_disjoint st" and "session_erase_batch st s keys = ret st'"
  shows "keys_disjoint st'"
proof (cases s)
  case None
  with assms show ?thesis by simp
next
  case (Some a)
  note e = session_erase_batch_effects [OF assms(2) [unfolded Some]]
  have "set (updated_keys (impls st' a)) \<inter> set (deleted_keys (impls st' a)) = {}"
    unfolding e(2) e(3) using keys_disjoint_at [OF assms(1), of a] by auto
  with assms(1) e(1) show ?thesis by (rule keys_disjoint_only_layer)
qed

lemma cache_found_frame:
  assumes "cache_found st a kv = ret st'"
  shows "\<exists>ic. st' = set_ic (map_impl st a (\<lambda>m. m\<lparr>cache := ds_write (cache m) kv\<rparr>)) a ic"
  using assms update_iterator_cache_frame unfolding cache_found_def by blast

lemma session_read_state:
  assumes "session_read st (Some a) key = ret (st', v)"
  shows "st' = st \<or> (\<exists>kv. cache_found st a kv = ret st')"
proof (cases "walk (impls st) key (Some a)")
  case None
  with assms show ?thesis by (simp add: session_read_def)
next
  case (Some w)
  show ?thesis
  proof (cases w)
    case (Walk_deleted l)
    with assms Some show ?thesis by (simp add: session_read_def)
  next
    case (Walk_found l kv)
    show ?thesis
    proof (cases "l = a")
      case True
      with assms Some Walk_found show ?thesis by (simp add: session_read_def)
    next
      case False
      with assms Some Walk_found
      have "bind_res (cache_found st a kv) (\<lambda>st'. ret (st', Some kv)) = ret (st', v)"
        by (simp add: session_read_def)
      from bind_res_eq_ret [OF this] obtain x where c: "cache_found st a kv = ret x"
        and "ret (x, Some kv) = ret (st', v)" by blast
      then have "x = st'" by simp
      with c show ?thesis by blast
    qed
  next
    case Walk_miss
    show ?thesis
    proof (cases "backing_data_store (impls st a)")
      case None
      with assms Some Walk_miss show ?thesis by (simp add: session_read_def)
    next
      case (Some b)
      note b = this
      show ?thesis
      proof (cases "ds_read (stores st b) key")
        case None
        with assms \<open>walk (impls st) key (Some a) = Some w\<close> Walk_miss b show ?thesis
          by (simp add: session_read_def)
      next
        case (Some kv)
        with assms \<open>walk (impls st) key (Some a) = Some w\<close> Walk_miss b
        have "bind_res (cache_found st a kv) (\<lambda>st'. ret (st', Some kv)) = ret (st', v)"
          by (simp add: session_read_def)
        from bind_res_eq_ret [OF this] obtain x where c: "cache_found st a kv = ret x"
          and "ret (x, Some kv) = ret (st', v)" by blast
        then have "x = st'" by simp
        with c show ?thesis by blast
      qed
    qed
  qed
qed

lemma session_read_effects:
  assumes "session_read st (Some a) key = ret (st', v)"
  shows "only_layer st st' a"
    and "updated_keys (impls st' a) = updated_keys (impls st a)"
    and "deleted_keys (impls st' a) = deleted_keys (impls st a)"
proof -
  from session_read_state [OF assms]
  have "st' = st \<or> (\<exists>kv ic. st' = set_ic (map_impl st a (\<lambda>m. m\<lparr>cache := ds_write (cache m) kv\<rparr>)) a ic)"
    using cache_found_frame by blast
  then have "only_layer st st' a \<and> updated_keys (impls st' a) = updated_keys (impls st a)
      \<and> deleted_keys (impls st' a) = deleted_keys (impls st a)"
    by (auto simp: only_layer_def map_impl_def set_ic_def)
  then show "only_layer st st' a"
    and "updated_keys (impls st' a) = updated_keys (impls st a)"
    and "deleted_keys (impls st' a) = deleted_keys (impls st a)"
    by blast+
qed

lemma keys_disjoint_read:
  assumes "keys_disjoint st" and "session_read st s key = ret (st', v)"
  shows "keys_disjoint st'"
proof (cases s)
  case None
  with assms show ?thesis by (simp add: session_read_def)
next
  case (Some a)
  note e = session_read_effects [OF assms(2) [unfolded Some]]
  have "set (updated_keys (impls st' a)) \<inter> set (deleted_keys (impls st' a)) = {}"
    unfolding e(2) e(3) using keys_disjoint_at [OF assms(1), of a] by auto
  with assms(1) e(1) show ?thesis by (rule keys_disjoint_only_layer)
qed

lemma keys_disjoint_clear_impl:
  "keys_disjoint st \<Longrightarrow> keys_disjoint (map_impl st a clear_impl)"
  by (rule keys_disjoint_map_impl) (simp_all add: clear_impl_def)

lemma keys_disjoint_stores:
  "keys_disjoint (st\<lparr>stores := x\<rparr>) = keys_disjoint st"
  by (simp add: keys_disjoint_def)

lemma keys_disjoint_commit_impl:
  assumes "keys_disjoint st" and "commit_impl st a = ret st'"
  shows "keys_disjoint st'"
proof (cases "(parent (impls st a) = None \<and> backing_data_store (impls st a) = None)
              \<or> (updated_keys (impls st a) = [] \<and> deleted_keys (impls st a) = [])")
  case True
  then have "commit_impl st a = ret st"
    unfolding commit_impl_def by (cases "parent (impls st a) = None \<and> backing_data_store (impls st a) = None") auto
  with assms show ?thesis by simp
next
  case False
  then have n1: "(parent (impls st a) = None \<and> backing_data_store (impls st a) = None) = False"
    and n2: "(updated_keys (impls st a) = [] \<and> deleted_keys (impls st a) = []) = False"
    by blast+
  show ?thesis
  proof (cases "parent (impls st a)")
    case (Some p)
    with assms(2) have "bind_res (session_erase_batch st (Some p) (deleted_keys (impls st a))) (\<lambda>st1.
             bind_res (session_write_batch st1 (Some p)
                         (ds_entries_for (cache (impls st1 a)) (updated_keys (impls st1 a))))
               (\<lambda>st2. ret (map_impl st2 a clear_impl))) = ret st'"
      by (simp add: commit_impl_def n1 n2)
    from bind_res_eq_ret [OF this] obtain st1 where
      1: "session_erase_batch st (Some p) (deleted_keys (impls st a)) = ret st1"
      and r: "bind_res (session_write_batch st1 (Some p)
                         (ds_entries_for (cache (impls st1 a)) (updated_keys (impls st1 a))))
               (\<lambda>st2. ret (map_impl st2 a clear_impl)) = ret st'"
      by blast
    from bind_res_eq_ret [OF r] obtain st2 where
      2: "session_write_batch st1 (Some p)
            (ds_entries_for (cache (impls st1 a)) (updated_keys (impls st1 a))) = ret st2"
      and 3: "st' = map_impl st2 a clear_impl"
      by auto
    have "keys_disjoint st1" using assms(1) 1 by (rule keys_disjoint_erase_batch)
    then have "keys_disjoint st2" using 2 by (rule keys_disjoint_write_batch)
    then show ?thesis unfolding 3 by (rule keys_disjoint_clear_impl)
  next
    case None
    with n1 obtain b where b: "backing_data_store (impls st a) = Some b" by auto
    with assms(2) None obtain ds where "st' = map_impl (st\<lparr>stores := ds\<rparr>) a clear_impl"
      by (auto simp: commit_impl_def n2 Let_def)
    then show ?thesis
      using assms(1) by (simp add: keys_disjoint_clear_impl keys_disjoint_stores)
  qed
qed

lemma keys_disjoint_links:
  assumes "keys_disjoint st"
    and "updated_keys (f (impls st x)) = updated_keys (impls st x)"
    and "deleted_keys (f (impls st x)) = deleted_keys (impls st x)"
  shows "keys_disjoint (map_impl st x f)"
  using assms(1) by (rule keys_disjoint_map_impl) (simp add: assms(2,3) keys_disjoint_at [OF assms(1)])

lemma keys_disjoint_undo_impl:
  assumes "keys_disjoint st"
  shows "keys_disjoint (undo_impl st a)"
proof -
  define st1 where "st1 = (case parent (impls st a) of
                   None \<Rightarrow> st
                 | Some p \<Rightarrow> map_impl st p (\<lambda>m. m\<lparr>child := child (impls st a)\<rparr>))"
  have 1: "keys_disjoint st1"
  proof (cases "parent (impls st a)")
    case None
    with assms show ?thesis by (simp add: st1_def)
  next
    case (Some p)
    have "keys_disjoint (map_impl st p (\<lambda>m. m\<lparr>child := child (impls st a)\<rparr>))"
      using assms by (rule keys_disjoint_links) simp_all
    with Some show ?thesis by (simp add: st1_def)
  qed
  define st2 where "st2 = (case child (impls st1 a) of
                   None \<Rightarrow> st1
                 | Some c \<Rightarrow> map_impl st1 c (\<lambda>m. m\<lparr>parent := parent (impls st1 a)\<rparr>))"
  have 2: "keys_disjoint st2"
  proof (cases "child (impls st1 a)")
    case None
    with 1 show ?thesis by (simp add: st2_def)
  next
    case (Some c)
    have "keys_disjoint (map_impl st1 c (\<lambda>m. m\<lparr>parent := parent (impls st1 a)\<rparr>))"
      using 1 by (rule keys_disjoint_links) simp_all
    with Some show ?thesis by (simp add: st2_def)
  qed
  have "keys_disjoint (map_impl st2 a
           (\<lambda>m. clear_impl (m\<lparr>parent := None, child := None, backing_data_store := None\<rparr>)))"
    using 2 by (rule keys_disjoint_map_impl) (simp add: clear_impl_def)
  then show ?thesis unfolding undo_impl_def Let_def st2_def st1_def .
qed

lemma keys_disjoint_make_session:
  "keys_disjoint st \<Longrightarrow> keys_disjoint (fst (make_session st pds))"
  by (simp add: keys_disjoint_def make_session_def impl0_def)

lemma keys_disjoint_nest:
  assumes "keys_disjoint st" and "make_nested_session st s = ret (st', s')"
  shows "keys_disjoint st'"
proof (cases s)
  case None
  with assms show ?thesis by (simp add: make_nested_session_def)
next
  case (Some p)
  define st1 where "st1 = st\<lparr>impls := (impls st)(next_impl st := impl0\<lparr>parent := Some p,
                          backing_data_store := backing_data_store (impls st p)\<rparr>),
                        next_impl := Suc (next_impl st)\<rparr>"
  have 1: "keys_disjoint st1" using assms(1) by (simp add: st1_def keys_disjoint_def impl0_def)
  define st2 where "st2 = (case child (impls st1 p) of
                        None \<Rightarrow> st1
                      | Some c \<Rightarrow>
                          map_impl
                            (map_impl st1 c (\<lambda>m. m\<lparr>backing_data_store := None\<rparr>))
                            c (\<lambda>m. m\<lparr>parent := None\<rparr>))"
  have 2: "keys_disjoint st2"
  proof (cases "child (impls st1 p)")
    case None
    with 1 show ?thesis by (simp add: st2_def)
  next
    case (Some c)
    have "keys_disjoint (map_impl st1 c (\<lambda>m. m\<lparr>backing_data_store := None\<rparr>))"
      using 1 by (rule keys_disjoint_links) simp_all
    then have "keys_disjoint (map_impl (map_impl st1 c (\<lambda>m. m\<lparr>backing_data_store := None\<rparr>))
                  c (\<lambda>m. m\<lparr>parent := None\<rparr>))"
      by (rule keys_disjoint_links) simp_all
    with Some show ?thesis by (simp add: st2_def)
  qed
  have r: "make_nested_session st (Some p) =
             (case parent (impls st2 (next_impl st)) of
                None \<Rightarrow> fault Null_impl
              | Some q \<Rightarrow> ret (map_impl st2 q (\<lambda>m. m\<lparr>child := Some (next_impl st)\<rparr>),
                               Some (next_impl st)))"
    unfolding make_nested_session_def Let_def st2_def st1_def by simp
  from assms(2) Some have "(case parent (impls st2 (next_impl st)) of
                None \<Rightarrow> fault Null_impl
              | Some q \<Rightarrow> ret (map_impl st2 q (\<lambda>m. m\<lparr>child := Some (next_impl st)\<rparr>),
                               Some (next_impl st))) = ret (st', s')"
    by (simp add: r)
  then obtain q where "st' = map_impl st2 q (\<lambda>m. m\<lparr>child := Some (next_impl st)\<rparr>)"
    by (cases "parent (impls st2 (next_impl st))") auto
  moreover have "keys_disjoint (map_impl st2 q (\<lambda>m. m\<lparr>child := Some (next_impl st)\<rparr>))" for q
    using 2 by (rule keys_disjoint_links) simp_all
  ultimately show ?thesis by simp
qed

lemma keys_disjoint_apply:
  assumes "keys_disjoint st" and "apply_operation st op = ret st'"
  shows "keys_disjoint st'"
proof (cases op)
  case (Write s kv)
  with assms show ?thesis by (auto intro: keys_disjoint_write)
next
  case (Erase s key)
  with assms show ?thesis by (auto intro: keys_disjoint_erase)
next
  case (Write_batch s kvs)
  with assms show ?thesis by (auto intro: keys_disjoint_write_batch)
next
  case (Erase_batch s keys)
  with assms show ?thesis by (auto intro: keys_disjoint_erase_batch)
next
  case (Read s key)
  with assms have "bind_res (session_read st s key) (\<lambda>(st', kv). ret st') = ret st'" by simp
  from bind_res_eq_ret [OF this] obtain v where "session_read st s key = ret (st', v)" by auto
  with assms(1) show ?thesis by (rule keys_disjoint_read)
next
  case (Commit s)
  with assms show ?thesis
    by (cases s) (auto simp: session_commit_def intro: keys_disjoint_commit_impl)
next
  case (Clear s)
  with assms show ?thesis
    by (cases s) (auto simp: session_clear_def intro: keys_disjoint_clear_impl)
next
  case (Undo s)
  with assms show ?thesis
    by (cases s) (auto simp: session_undo_def intro: keys_disjoint_undo_impl)
next
  case (New_root pds)
  with assms show ?thesis by (auto intro: keys_disjoint_make_session)
next
  case (Nest s)
  with assms have "bind_res (make_nested_session st s) (\<lambda>(st', s'). ret st') = ret st'" by simp
  from bind_res_eq_ret [OF this] obtain s' where "make_nested_session st s = ret (st', s')" by auto
  with assms(1) show ?thesis by (rule keys_disjoint_nest)
qed

lemma keys_disjoint_run:
  "keys_disjoint st \<Longrightarrow> run st ops = ret st' \<Longrightarrow> keys_disjoint st'"
proof (induction ops arbitrary: st)
  case Nil
  then show ?case by simp
next
  case (Cons op ops)
  obtain st1 where 1: "apply_operation st op = ret st1"
    and 2: "run st1 ops = ret st'"
  proof (cases "apply_operation st op")
    case None
    with Cons.prems(2) show ?thesis by simp
  next
    case (Some r)
    show ?thesis
    proof (cases r)
      case (Inl e)
      with Some Cons.prems(2) show ?thesis by (simp add: ret_def)
    next
      case (Inr st1)
      with Some Cons.prems(2) that show ?thesis by (simp add: ret_def)
    qed
  qed
  from Cons.prems(1) 1 have "keys_disjoint st1" by (rule keys_disjoint_apply)
  then show ?case using 2 by (rule Cons.IH)
qed

section \<open>The merged view and \<^verbatim>\<open>undo\<close>\<close>

lemma returned_ret [simp]: "returned (ret (s, x)) = ret x"
  by (simp add: returned_def ret_def)

lemma cache_found_total:
  assumes "iterable st a as cs"
  shows "\<exists>st'. cache_found st a kv = ret st'"
proof -
  have "iterable (map_impl st a (\<lambda>m. m\<lparr>cache := ds_write (cache m) kv\<rparr>)) a as cs"
    using assms by (simp add: iterable_map_impl)
  from update_iterator_cache_total [OF this] show ?thesis
    unfolding cache_found_def by blast
qed

lemma session_read_returned:
  assumes "iterable st a as cs"
  shows "returned (session_read st (Some a) key) = ret (merged_read st as a key)"
proof -
  have w: "walk (impls st) key (Some a) = Some (merged_walk (impls st) as key)"
    using assms by (simp add: iterable_def walk_chain)
  obtain b where b: "backing_data_store (impls st a) = Some b"
    using assms by (auto simp: iterable_def)
  have c: "returned (bind_res (cache_found st a kv) (\<lambda>st'. ret (st', Some kv))) = ret (Some kv)"
    for kv
  proof -
    from cache_found_total [OF assms] obtain st' where "cache_found st a kv = ret st'" by blast
    then show ?thesis by simp
  qed
  show ?thesis
  proof (cases "merged_walk (impls st) as key")
    case (Walk_deleted l)
    then show ?thesis by (simp add: session_read_def w merged_read_def)
  next
    case (Walk_found l kv)
    then show ?thesis by (simp add: session_read_def w merged_read_def c)
  next
    case Walk_miss
    then show ?thesis
      by (cases "ds_read (stores st b) key") (simp_all add: session_read_def w merged_read_def b c)
  qed
qed

lemma session_contains_returned:
  assumes "iterable st a as cs"
  shows "returned (session_contains st (Some a) key) = ret (merged_contains st as a key)"
proof -
  have w: "walk (impls st) key (Some a) = Some (merged_walk (impls st) as key)"
    using assms by (simp add: iterable_def walk_chain)
  obtain b where b: "backing_data_store (impls st a) = Some b"
    using assms by (auto simp: iterable_def)
  have c: "returned (bind_res (update_iterator_cache st a key refresh_params)
             (\<lambda>st'. ret (st', True))) = ret True"
  proof -
    from update_iterator_cache_total [OF assms] obtain st'
      where "update_iterator_cache st a key refresh_params = ret st'" by blast
    then show ?thesis by simp
  qed
  show ?thesis
    by (cases "merged_walk (impls st) as key")
      (simp_all add: session_contains_def w merged_contains_def b c)
qed

lemma merged_walk_cong:
  assumes "\<And>x. x \<in> set as \<Longrightarrow> deleted_keys (h' x) = deleted_keys (h x) \<and> cache (h' x) = cache (h x)"
  shows "merged_walk h' as key = merged_walk h as key"
  using assms by (induction as) (simp_all split: option.splits)

lemma chain_cong:
  assumes "\<And>x. x \<in> set as \<Longrightarrow> nx' x = nx x"
  shows "chain nx' p as = chain nx p as"
  using assms by (induction as arbitrary: p) simp_all

lemma chain_cut:
  assumes "chain nx q cs"
  shows "\<exists>cs'. chain (nx(p := None)) q cs'"
  using assms
proof (induction cs arbitrary: q)
  case Nil
  then have "chain (nx(p := None)) q []" by simp
  then show ?case by blast
next
  case (Cons c cs)
  then have q: "q = Some c" and r: "chain nx (nx c) cs" by simp_all
  show ?case
  proof (cases "c = p")
    case True
    then have "chain (nx(p := None)) q [c]" using q by simp
    then show ?thesis by blast
  next
    case False
    from Cons.IH [OF r] obtain cs' where "chain (nx(p := None)) (nx c) cs'" by blast
    then have "chain (nx(p := None)) q (c # cs')" using q False by simp
    then show ?thesis by blast
  qed
qed

lemma make_nested_session_state:
  fixes st :: "('k, 'v) state"
  assumes pn: "p \<noteq> next_impl st"
    and cn: "child (impls st p) \<noteq> Some (next_impl st)"
    and cp: "child (impls st p) \<noteq> Some p"
  shows "\<exists>st1. make_nested_session st (Some p) = ret (st1, Some (next_impl st))
           \<and> stores st1 = stores st
           \<and> impls st1 (next_impl st)
               = impl0\<lparr>parent := Some p, backing_data_store := backing_data_store (impls st p)\<rparr>
           \<and> impls st1 p = (impls st p)\<lparr>child := Some (next_impl st)\<rparr>
           \<and> (\<forall>x. x \<noteq> next_impl st \<and> x \<noteq> p \<longrightarrow>
                  deleted_keys (impls st1 x) = deleted_keys (impls st x)
                  \<and> cache (impls st1 x) = cache (impls st x)
                  \<and> child (impls st1 x) = child (impls st x))
           \<and> (\<forall>x. x \<noteq> next_impl st \<and> child (impls st p) \<noteq> Some x \<longrightarrow>
                  parent (impls st1 x) = parent (impls st x))"
proof (cases "child (impls st p)")
  case None
  with pn show ?thesis
    by (simp add: make_nested_session_def Let_def map_impl_def impl0_def)
next
  case (Some c)
  with pn cn cp have "c \<noteq> next_impl st" "c \<noteq> p" by simp_all
  with Some pn show ?thesis
    by (simp add: make_nested_session_def Let_def map_impl_def impl0_def)
qed

lemma undo_impl_tip:
  fixes st :: "('k, 'v) state"
  assumes par: "parent (impls st t) = Some p"
    and ch: "child (impls st t) = None"
    and neq: "p \<noteq> t"
  shows "stores (undo_impl st t) = stores st"
    and "impls (undo_impl st t) t = impl0"
    and "impls (undo_impl st t) p = (impls st p)\<lparr>child := None\<rparr>"
    and "\<And>x. x \<noteq> t \<Longrightarrow> x \<noteq> p \<Longrightarrow> impls (undo_impl st t) x = impls st x"
  using assms by (simp_all add: undo_impl_def Let_def map_impl_def clear_impl_def impl0_def)

lemma chain_head: "chain nx (Some p) as \<Longrightarrow> p \<in> set as"
  by (cases as) simp_all

section \<open>The claims\<close>

text \<open>
  Claim C4, as amended. For a session \<open>a\<close> whose parents form the chain \<open>as\<close>,
  \<^verbatim>\<open>write_to(D, keys)\<close> returns, and it writes into \<open>D\<close>, for each key of \<open>keys\<close>, the value
  of the first layer from the session toward the root whose overlay holds the key,
  provided neither that layer nor a layer before it holds a tombstone for the key. Every
  other key is skipped and keeps what \<open>D\<close> held for it: a key under a tombstone, and a
  key in no overlay of the chain, whatever the backing store holds for it (the right-hand
  sides do not mention the stores of the state).
\<close>

theorem write_to_overlay_values:
  assumes "chain (\<lambda>x. parent (impls st x)) (Some a) as"
  shows "\<exists>ds'. session_write_to st (Some a) ds keys = Some ds'
           \<and> ds' = ds_write_batch ds
                    (List.map_filter
                       (\<lambda>key. map_option (Pair key) (overlay_value (map (impls st) as) key)) keys)
           \<and> (\<forall>key. map_of ds' key =
                 (case (if key \<in> set keys then overlay_value (map (impls st) as) key else None) of
                    Some v \<Rightarrow> Some v
                  | None \<Rightarrow> map_of ds key))"
proof -
  let ?kvs = "List.map_filter
                (\<lambda>key. map_option (Pair key) (overlay_value (map (impls st) as) key)) keys"
  have r: "session_write_to st (Some a) ds keys = Some (ds_write_batch ds ?kvs)"
    by (simp add: session_write_to_def write_to_results_chain [OF assms])
  have m: "map_of (ds_write_batch ds ?kvs) key =
             (case (if key \<in> set keys then overlay_value (map (impls st) as) key else None) of
                Some v \<Rightarrow> Some v
              | None \<Rightarrow> map_of ds key)" for key
    by (simp add: map_of_ds_write_batch map_add_def map_of_rev_keyed)
  show ?thesis using r m by simp
qed

text \<open>Witness of C4: from the nested session of \<open>two_layers\<close>, keys 2 and 3 are written
  with the overlay values; key 4 (tombstoned at the root) and key 1 (held by the backing
  store only) are skipped.\<close>

theorem write_to_overlay_values_witness:
  "session_write_to two_layers (Some 2) [(4, 44)] [1, 2, 3, 4] = Some [(2, 20), (3, 30), (4, 44)]"
proof -
  have c: "chain (\<lambda>x. parent (impls two_layers x)) (Some 2) [2, 1]"
    by (simp add: two_layers_def impl0_def)
  show ?thesis
    using write_to_overlay_values [OF c, of "[(4, 44)]" "[1, 2, 3, 4]"]
    by (simp add: two_layers_def impl0_def ds_write_batch_def ds_write_def ds_erase_def
          List.map_filter_simps)
qed

text \<open>Counterexample to C4 as stated: a root session over the backing store \<open>[(1, 10)]\<close>
  reads the value \<open>(1, 10)\<close> for key 1, which is its merged value, and \<^verbatim>\<open>write_to\<close> for
  key 1 writes nothing into the empty destination.\<close>

theorem write_to_backing_counterexample:
  "(case make_session (init_state :: (nat, nat) state) [(1, 10)] of
      (st, s) \<Rightarrow> (returned (session_read st s 1), session_write_to st s [] [1]))
     = (ret (Some (1, 10)), Some [])"
  by code_simp

text \<open>
  Claim C10. A root session, a session nested on it, \<^verbatim>\<open>undo\<close> on the nested session (which
  clears its backing reference), and then \<^verbatim>\<open>contains\<close> through the nested session for a
  key that no layer holds: line 630 dereferences the null backing store.
\<close>

theorem contains_null_backing_store:
  "(case make_session (init_state :: (nat, nat) state) [] of
      (st0, s0) \<Rightarrow>
        bind_res (make_nested_session st0 s0) (\<lambda>(st1, s1).
          returned (session_contains (session_undo st1 s1) s1 7)))
     = fault Null_backing_store"
  by code_simp


text \<open>
  Claim C1. A root session \<open>s0\<close>, a session \<open>s1\<close> nested on it that writes \<open>(1, 10)\<close>,
  \<^verbatim>\<open>detach\<close> on \<open>s0\<close> (which clears the parent and the backing reference of \<open>s1\<close>), a session
  \<open>s2\<close> nested on \<open>s1\<close> (which inherits the null backing reference), and \<^verbatim>\<open>read\<close> of key 1
  through \<open>s2\<close>: the walk finds the entry in the overlay of \<open>s1\<close>, the value is written into
  the overlay of \<open>s2\<close>, and \<^verbatim>\<open>update_iterator_cache\<close> reaches line 854 of \<^verbatim>\<open>make_iterator_\<close>,
  which dereferences the null backing store of \<open>s2\<close>.
\<close>

theorem read_null_backing_store:
  "(case make_session (init_state :: (nat, nat) state) [] of
      (st0, s0) \<Rightarrow>
        bind_res (make_nested_session st0 s0) (\<lambda>(st1, s1).
        bind_res (session_write st1 s1 (1, 10)) (\<lambda>st2.
          case session_detach st2 s0 of
            (st3, d) \<Rightarrow>
              bind_res (make_nested_session st3 s1) (\<lambda>(st4, s2).
                returned (session_read st4 s2 1)))))
     = fault Null_backing_store"
  by code_simp

text \<open>
  Claim C3. A root session over the backing store \<open>[(1, 10)]\<close> erases key 1. The single
  \<^verbatim>\<open>read\<close> of key 1 then returns the invalid pair, but the batch \<^verbatim>\<open>read\<close> of \<open>[1]\<close> returns
  the pair \<open>(1, 10)\<close> fetched from the backing store, reports no missing key, and leaves
  \<open>(1, 10)\<close> in the overlay of the session.
\<close>

theorem read_batch_fetches_tombstoned_key:
  "(case make_session (init_state :: (nat, nat) state) [(1, 10)] of
      (st0, s0) \<Rightarrow>
        bind_res (session_erase st0 s0 1) (\<lambda>st1.
        bind_res (session_read st1 s0 1) (\<lambda>(st1', single).
        bind_res (session_read_batch st1 s0 [1]) (\<lambda>(st2, found, missing).
          ret (deleted_keys (layer st1 s0), single, found, missing, cache (layer st2 s0))))))
     = ret ([1], None, [(1, 10)], [], [(1, 10)])"
  by code_simp

text \<open>
  Claim C5. A root session with an empty overlay over the backing store
  \<open>[(1, 10), (5, 50)]\<close>: the merged view holds the keys 1 and 5, so the greatest key below
  7 is 5, and \<^verbatim>\<open>bounds(7)\<close> returns the invalid key for the lower bound.
\<close>

theorem bounds_above_all_keys:
  "(case make_session (init_state :: (nat, nat) state) [(1, 10), (5, 50)] of
      (st0, s0) \<Rightarrow> (case s0 of None \<Rightarrow> fault Null_impl | Some a \<Rightarrow> returned (bounds st0 a 7)))
     = ret (None, None)"
  by code_simp

text \<open>
  Claim C6. A root session over the backing store \<open>[(1, 10), (5, 50)]\<close>: \<^verbatim>\<open>end()\<close> is the end
  sentinel, and incrementing it evaluates \<^verbatim>\<open>it->second.next_in_cache\<close> (line 1102, called at
  line 1078) on the end iterator of the iterator cache.
\<close>

theorem increment_end_iterator:
  "(case make_session (init_state :: (nat, nat) state) [(1, 10), (5, 50)] of
      (st0, s0) \<Rightarrow>
        bind_res (session_end st0 s0) (\<lambda>(st1, e).
          ret (m_active_iterator e, returned (iterator_increment st1 e))))
     = ret (None, fault End_iterator)"
  by code_simp

text \<open>
  Claim C9, as amended. On an empty handle, \<^verbatim>\<open>attach\<close> and \<^verbatim>\<open>detach\<close> return the sentinel
  \<^verbatim>\<open>session::invalid\<close>, and \<^verbatim>\<open>commit\<close>, \<^verbatim>\<open>undo\<close>, \<^verbatim>\<open>write\<close>, \<^verbatim>\<open>erase\<close>, \<^verbatim>\<open>clear\<close> and the batch
  \<^verbatim>\<open>write\<close> and \<^verbatim>\<open>erase\<close> leave the state as it is. The sentinel itself is not an empty
  handle.
\<close>

theorem empty_handle_operations:
  "session_attach st None c = ret (st, invalid)
   \<and> session_detach st None = (st, invalid)
   \<and> session_commit st None = ret st
   \<and> session_undo st None = st
   \<and> session_write st None kv = ret st
   \<and> session_erase st None key = ret st
   \<and> session_clear st None = st
   \<and> session_write_batch st None kvs = ret st
   \<and> session_erase_batch st None keys = ret st
   \<and> invalid \<noteq> None"
proof -
  have w: "session_write_batch st None kvs = ret st" by (cases kvs) simp_all
  have e: "session_erase_batch st None keys = ret st" by (cases keys) simp_all
  show ?thesis
    by (simp add: w e session_attach_def session_detach_def session_commit_def session_undo_def
          session_write_def session_erase_def session_clear_def invalid_def)
qed

text \<open>Counterexample to C9 as stated: \<^verbatim>\<open>detach\<close> on an empty handle returns the sentinel;
  a \<^verbatim>\<open>write\<close> through the session returned changes what \<^verbatim>\<open>read\<close> through
  \<^verbatim>\<open>session::invalid\<close> returns.\<close>

theorem invalid_session_write_counterexample:
  "(case session_detach (init_state :: (nat, nat) state) None of
      (st, s) \<Rightarrow>
        (s, returned (session_read st invalid 1),
         bind_res (session_write st s (1, 10)) (\<lambda>st'. returned (session_read st' invalid 1))))
     = (invalid, ret None, ret (Some (1, 10)))"
  by code_simp

text \<open>Counterexample to C2 as stated: a session nested on a root over the backing store
  \<open>[(1, 10)]\<close> reads key 1, which leaves the pair in its overlay and no key in its updated
  or deleted set. After \<^verbatim>\<open>commit\<close> the overlay and the iterator cache of the session still
  hold key 1.\<close>

theorem commit_cached_only_counterexample:
  "(case make_session (init_state :: (nat, nat) state) [(1, 10)] of
      (st0, s0) \<Rightarrow>
        bind_res (make_nested_session st0 s0) (\<lambda>(st1, s1).
        bind_res (session_read st1 s1 1) (\<lambda>(st2, kv).
        bind_res (session_commit st2 s1) (\<lambda>st3.
          ret (parent (layer st2 s1), updated_keys (layer st2 s1), deleted_keys (layer st2 s1),
               cache (layer st3 s1), map fst (iterator_cache (layer st3 s1)))))))
     = ret (Some 1, [], [], [(1, 10)], [1])"
  by code_simp

text \<open>
  Claim C2, as amended. Let the layer \<open>a\<close> have a parent \<open>p\<close> (another session, with a
  backing store and finite chains of parents and children, so that the iterator cache
  of \<open>p\<close> can be updated) or, at the root, a backing store. Then \<^verbatim>\<open>commit\<close> returns. If
  the layer has no updated and no deleted key, the state is unchanged. Otherwise the
  destination (the overlay of \<open>p\<close>, or the backing store) holds what it held with every
  key of the layer's deleted set erased first and the overlay entries whose keys are in
  the layer's updated set written then; the parent's deleted and updated sets follow;
  the layer's deleted set, updated set, overlay and iterator cache are empty, and it
  keeps its parent, child and backing reference; nothing else changes.
\<close>

theorem commit_writes_through:
  assumes "case parent (impls st a) of
             Some p \<Rightarrow> p \<noteq> a \<and> iterable st p as cs
           | None \<Rightarrow> backing_data_store (impls st a) \<noteq> None"
  shows "\<exists>st'. session_commit st (Some a) = ret st'
           \<and> (if updated_keys (impls st a) = [] \<and> deleted_keys (impls st a) = [] then st' = st
              else deleted_keys (impls st' a) = [] \<and> updated_keys (impls st' a) = []
                 \<and> cache (impls st' a) = [] \<and> iterator_cache (impls st' a) = []
                 \<and> parent (impls st' a) = parent (impls st a)
                 \<and> child (impls st' a) = child (impls st a)
                 \<and> backing_data_store (impls st' a) = backing_data_store (impls st a)
                 \<and> (case parent (impls st a) of
                      Some p \<Rightarrow>
                        map_of (cache (impls st' p))
                          = written_through (map_of (cache (impls st p))) (impls st a)
                        \<and> set (deleted_keys (impls st' p))
                            = (set (deleted_keys (impls st p)) \<union> set (deleted_keys (impls st a)))
                                - authored (impls st a)
                        \<and> set (updated_keys (impls st' p))
                            = (set (updated_keys (impls st p)) - set (deleted_keys (impls st a)))
                                \<union> authored (impls st a)
                        \<and> parent (impls st' p) = parent (impls st p)
                        \<and> child (impls st' p) = child (impls st p)
                        \<and> backing_data_store (impls st' p) = backing_data_store (impls st p)
                        \<and> (\<forall>x. x \<noteq> a \<and> x \<noteq> p \<longrightarrow> impls st' x = impls st x)
                        \<and> stores st' = stores st
                    | None \<Rightarrow>
                        (\<forall>b. backing_data_store (impls st a) = Some b \<longrightarrow>
                           map_of (stores st' b)
                             = written_through (map_of (stores st b)) (impls st a)
                           \<and> (\<forall>x. x \<noteq> b \<longrightarrow> stores st' x = stores st x))
                        \<and> (\<forall>x. x \<noteq> a \<longrightarrow> impls st' x = impls st x)))"
proof (cases "updated_keys (impls st a) = [] \<and> deleted_keys (impls st a) = []")
  case True
  then show ?thesis
    by (simp add: session_commit_def commit_impl_def)
next
  case False
  then have nz: "(updated_keys (impls st a) = [] \<and> deleted_keys (impls st a) = []) = False"
    by simp
  show ?thesis
  proof (cases "parent (impls st a)")
    case None
    with assms obtain b where b: "backing_data_store (impls st a) = Some b" by auto
    from commit_impl_root [OF None b False] obtain st' where
      r: "commit_impl st a = ret st'"
      and a: "impls st' a = clear_impl (impls st a)"
      and c: "map_of (stores st' b) = written_through (map_of (stores st b)) (impls st a)"
      and f: "\<forall>x. x \<noteq> a \<longrightarrow> impls st' x = impls st x"
      and g: "\<forall>x. x \<noteq> b \<longrightarrow> stores st' x = stores st x"
      by blast
    show ?thesis
      apply (rule exI [of _ st'])
      using None b f g by (simp add: nz session_commit_def r a c clear_impl_def)
  next
    case (Some p)
    with assms have neq: "p \<noteq> a" and it: "iterable st p as cs" by simp_all
    from commit_impl_parent [OF Some neq it False] obtain st' where
      r: "commit_impl st a = ret st'"
      and a: "impls st' a = clear_impl (impls st a)"
      and c: "map_of (cache (impls st' p))
               = written_through (map_of (cache (impls st p))) (impls st a)"
      and d: "set (deleted_keys (impls st' p))
               = (set (deleted_keys (impls st p)) \<union> set (deleted_keys (impls st a)))
                   - authored (impls st a)"
      and u: "set (updated_keys (impls st' p))
               = (set (updated_keys (impls st p)) - set (deleted_keys (impls st a)))
                   \<union> authored (impls st a)"
      and l: "parent (impls st' p) = parent (impls st p)"
             "child (impls st' p) = child (impls st p)"
             "backing_data_store (impls st' p) = backing_data_store (impls st p)"
      and f: "\<forall>x. x \<noteq> a \<and> x \<noteq> p \<longrightarrow> impls st' x = impls st x"
      and g: "stores st' = stores st"
      by blast
    show ?thesis
      apply (rule exI [of _ st'])
      using Some f by (simp add: nz session_commit_def r a c d u l g clear_impl_def)
  qed
qed

text \<open>Witness of C2: the nested session of \<open>two_layers\<close> commits into the root.\<close>

theorem commit_writes_through_witness:
  "\<exists>st'. session_commit two_layers (Some 2) = ret st'
         \<and> deleted_keys (impls st' 2) = [] \<and> updated_keys (impls st' 2) = []
         \<and> cache (impls st' 2) = [] \<and> iterator_cache (impls st' 2) = []
         \<and> parent (impls st' 2) = Some 1
         \<and> map_of (cache (impls st' 1)) 3 = Some 30
         \<and> map_of (cache (impls st' 1)) 2 = Some 20
         \<and> set (updated_keys (impls st' 1)) = {2, 3}
         \<and> set (deleted_keys (impls st' 1)) = {4}"
proof -
  have h: "case parent (impls two_layers 2) of
             Some p \<Rightarrow> p \<noteq> 2 \<and> iterable two_layers p [1] [1, 2]
           | None \<Rightarrow> backing_data_store (impls two_layers 2) \<noteq> None"
    by (simp add: two_layers_def impl0_def iterable_def)
  have p: "parent (impls two_layers 2) = Some 1" by (simp add: two_layers_def impl0_def)
  have u: "updated_keys (impls two_layers 2) = [3]" by (simp add: two_layers_def impl0_def)
  have d: "deleted_keys (impls two_layers 2) = []" by (simp add: two_layers_def impl0_def)
  have c: "cache (impls two_layers 2) = [(3, 30)]" by (simp add: two_layers_def impl0_def)
  have p1: "cache (impls two_layers 1) = [(2, 20)]" "updated_keys (impls two_layers 1) = [2]"
    "deleted_keys (impls two_layers 1) = [4]" by (simp_all add: two_layers_def impl0_def)
  from commit_writes_through [OF h] obtain st' where
    "session_commit two_layers (Some 2) = ret st'"
    "deleted_keys (impls st' 2) = []" "updated_keys (impls st' 2) = []"
    "cache (impls st' 2) = []" "iterator_cache (impls st' 2) = []"
    "parent (impls st' 2) = Some 1"
    "map_of (cache (impls st' 1))
       = written_through (map_of (cache (impls two_layers 1))) (impls two_layers 2)"
    "set (deleted_keys (impls st' 1))
       = (set (deleted_keys (impls two_layers 1)) \<union> set (deleted_keys (impls two_layers 2)))
           - authored (impls two_layers 2)"
    "set (updated_keys (impls st' 1))
       = (set (updated_keys (impls two_layers 1)) - set (deleted_keys (impls two_layers 2)))
           \<union> authored (impls two_layers 2)"
    unfolding p u by (simp add: p) blast
  then show ?thesis
    by (auto simp: written_through_def authored_def u d c p1 simp del: One_nat_def)
qed

text \<open>
  Claim C8. Starting from a state in which no layer has a key in both its updated and its
  deleted set, every sequence of operations (write, erase, batch write, batch erase, read,
  commit, clear, undo, and the creation of root and nested sessions) that returns leaves
  every layer with disjoint sets. Every \<^verbatim>\<open>write\<close> that returns has put the key in the
  updated set and taken it out of the deleted set, every \<^verbatim>\<open>erase\<close> the converse, and both
  return on every session whose chain of layers is finite and has a backing store.
\<close>

theorem updated_deleted_disjoint:
  fixes st st' :: "('k::linorder, 'v) state"
  assumes "keys_disjoint st" and "run st ops = ret st'"
  shows "keys_disjoint st'
         \<and> (\<forall>(s :: ('k, 'v) state) a kv s'. session_write s (Some a) kv = ret s' \<longrightarrow>
               fst kv \<in> set (updated_keys (impls s' a))
               \<and> fst kv \<notin> set (deleted_keys (impls s' a)))
         \<and> (\<forall>(s :: ('k, 'v) state) a key s'. session_erase s (Some a) key = ret s' \<longrightarrow>
               key \<in> set (deleted_keys (impls s' a))
               \<and> key \<notin> set (updated_keys (impls s' a)))
         \<and> (\<forall>(s :: ('k, 'v) state) a as cs kv. iterable s a as cs \<longrightarrow>
               (\<exists>s'. session_write s (Some a) kv = ret s'))
         \<and> (\<forall>(s :: ('k, 'v) state) a as cs key. iterable s a as cs \<longrightarrow>
               (\<exists>s'. session_erase s (Some a) key = ret s'))"
proof -
  have 1: "keys_disjoint st'"
    using assms by (rule keys_disjoint_run)
  have 2: "fst kv \<in> set (updated_keys (impls s' a))
           \<and> fst kv \<notin> set (deleted_keys (impls s' a))"
    if "session_write s (Some a) kv = ret s'"
    for s s' :: "('k, 'v) state" and a kv
    using session_write_effects(2,3) [OF that] by simp
  have 3: "key \<in> set (deleted_keys (impls s' a))
           \<and> key \<notin> set (updated_keys (impls s' a))"
    if "session_erase s (Some a) key = ret s'"
    for s s' :: "('k, 'v) state" and a key
    using session_erase_effects(2,3) [OF that] by simp
  have 4: "\<exists>s'. session_write s (Some a) kv = ret s'"
    if "iterable s a as cs" for s :: "('k, 'v) state" and a as cs kv
    using session_write_total [OF that] by blast
  have 5: "\<exists>s'. session_erase s (Some a) key = ret s'"
    if "iterable s a as cs" for s :: "('k, 'v) state" and a as cs key
    using session_erase_total [OF that] by blast
  show ?thesis
    using 1 2 3 4 5 by blast
qed

text \<open>Witness of C8: the operations of \<open>example_operations\<close> return from the initial state;
  after the commit the root session has key 5 updated and key 1 deleted.\<close>

theorem updated_deleted_disjoint_witness:
  "\<exists>st'. run init_state example_operations = ret st' \<and> keys_disjoint st'
         \<and> key_sets st' 1 = ([5], [1])"
proof -
  have "bind_res (run init_state example_operations) (\<lambda>st'. ret (key_sets st' 1))
        = ret ([5], [1])"
    by code_simp
  from bind_res_eq_ret [OF this] obtain st'
    where r: "run init_state example_operations = ret st'"
      and m: "ret (key_sets st' 1) = ret ([5 :: nat], [1 :: nat])"
    by blast
  have i: "keys_disjoint (init_state :: (nat, nat) state)"
    by (simp add: keys_disjoint_def init_state_def impl0_def)
  from updated_deleted_disjoint [OF i r] r m show ?thesis
    by (simp del: One_nat_def)
qed

text \<open>
  Claim C7. Let the session at \<open>p\<close> have a backing store, the finite chain \<open>as\<close> of layers
  toward the root and a finite chain of children below the root, let the address of the
  next session be none of \<open>as\<close>, and let the child \<open>p\<close> has, if any, be none of them
  either. Then nesting a session \<open>T\<close> on \<open>p\<close> returns, and whatever is then done to the
  contents of \<open>T\<close> alone, after \<^verbatim>\<open>undo\<close> on \<open>T\<close> every \<^verbatim>\<open>read\<close> and \<^verbatim>\<open>contains\<close> through \<open>p\<close>
  returns what it returned before \<open>T\<close> was created, namely the merged view of \<open>p\<close>; the
  backing stores and the overlay, updated set and deleted set of \<open>p\<close> are as they were,
  the child link of \<open>p\<close> is the (null) child link \<open>T\<close> had, and every field of \<open>T\<close> is
  cleared.
\<close>

theorem undo_restores_parent_view:
  fixes st0 :: "('k::linorder, 'v) state"
  assumes it: "iterable st0 p as cs"
    and fresh: "next_impl st0 \<notin> set as"
    and old: "\<forall>c. child (impls st0 p) = Some c \<longrightarrow> c \<notin> set as \<and> c \<noteq> next_impl st0"
  shows "\<exists>st1. make_nested_session st0 (Some p) = ret (st1, Some (next_impl st0))
           \<and> (\<forall>st2. only_layer st1 st2 (next_impl st0) \<longrightarrow>
                (let st3 = session_undo st2 (Some (next_impl st0)) in
                   (\<forall>key. returned (session_read st3 (Some p) key)
                            = returned (session_read st0 (Some p) key)
                        \<and> returned (session_read st0 (Some p) key)
                            = ret (merged_read st0 as p key)
                        \<and> returned (session_contains st3 (Some p) key)
                            = returned (session_contains st0 (Some p) key)
                        \<and> returned (session_contains st0 (Some p) key)
                            = ret (merged_contains st0 as p key))
                   \<and> stores st3 = stores st0
                   \<and> cache (impls st3 p) = cache (impls st0 p)
                   \<and> updated_keys (impls st3 p) = updated_keys (impls st0 p)
                   \<and> deleted_keys (impls st3 p) = deleted_keys (impls st0 p)
                   \<and> child (impls st3 p) = child (impls st2 (next_impl st0))
                   \<and> child (impls st3 p) = None
                   \<and> impls st3 (next_impl st0) = impl0))"
proof -
  let ?t = "next_impl st0"
  have pa: "p \<in> set as" using it by (auto simp: iterable_def intro: chain_head)
  then have pt: "p \<noteq> ?t" using fresh by auto
  have cn: "child (impls st0 p) \<noteq> Some ?t" using old by auto
  have cp: "child (impls st0 p) \<noteq> Some p" using old pa by auto
  from make_nested_session_state [OF pt cn cp] obtain st1 where
    m: "make_nested_session st0 (Some p) = ret (st1, Some ?t)"
    and s1: "stores st1 = stores st0"
    and t1: "impls st1 ?t
               = impl0\<lparr>parent := Some p, backing_data_store := backing_data_store (impls st0 p)\<rparr>"
    and p1: "impls st1 p = (impls st0 p)\<lparr>child := Some ?t\<rparr>"
    and x1: "\<And>x. x \<noteq> ?t \<and> x \<noteq> p \<Longrightarrow>
                  deleted_keys (impls st1 x) = deleted_keys (impls st0 x)
                  \<and> cache (impls st1 x) = cache (impls st0 x)
                  \<and> child (impls st1 x) = child (impls st0 x)"
    and y1: "\<And>x. x \<noteq> ?t \<and> child (impls st0 p) \<noteq> Some x \<Longrightarrow>
                  parent (impls st1 x) = parent (impls st0 x)"
    by blast
  have rest: "(\<forall>key. returned (session_read (session_undo st2 (Some ?t)) (Some p) key)
                            = returned (session_read st0 (Some p) key)
                        \<and> returned (session_read st0 (Some p) key)
                            = ret (merged_read st0 as p key)
                        \<and> returned (session_contains (session_undo st2 (Some ?t)) (Some p) key)
                            = returned (session_contains st0 (Some p) key)
                        \<and> returned (session_contains st0 (Some p) key)
                            = ret (merged_contains st0 as p key))
                   \<and> stores (session_undo st2 (Some ?t)) = stores st0
                   \<and> cache (impls (session_undo st2 (Some ?t)) p) = cache (impls st0 p)
                   \<and> updated_keys (impls (session_undo st2 (Some ?t)) p)
                       = updated_keys (impls st0 p)
                   \<and> deleted_keys (impls (session_undo st2 (Some ?t)) p)
                       = deleted_keys (impls st0 p)
                   \<and> child (impls (session_undo st2 (Some ?t)) p) = child (impls st2 ?t)
                   \<and> child (impls (session_undo st2 (Some ?t)) p) = None
                   \<and> impls (session_undo st2 (Some ?t)) ?t = impl0"
    if ol: "only_layer st1 st2 ?t" for st2
  proof -
    define st3 where "st3 = undo_impl st2 ?t"
    have u: "session_undo st2 (Some ?t) = st3" by (simp add: session_undo_def st3_def)
    have par: "parent (impls st2 ?t) = Some p"
      using ol t1 by (simp add: only_layer_def impl0_def)
    have ch: "child (impls st2 ?t) = None"
      using ol t1 by (simp add: only_layer_def impl0_def)
    have s2: "stores st2 = stores st1" using ol by (simp add: only_layer_def)
    have o2: "impls st2 x = impls st1 x" if "x \<noteq> ?t" for x
      using only_layer_other [OF ol that] .
    note e = undo_impl_tip [OF par ch pt]
    have s3: "stores st3 = stores st0" using e(1) s2 s1 by (simp add: st3_def)
    have t3: "impls st3 ?t = impl0" using e(2) by (simp add: st3_def)
    have p3: "impls st3 p = (impls st0 p)\<lparr>child := None\<rparr>"
      using e(3) o2 [OF pt] p1 by (simp add: st3_def)
    have x3: "impls st3 x = impls st1 x" if "x \<noteq> ?t" "x \<noteq> p" for x
      using e(4) [OF that] o2 [OF that(1)] by (simp add: st3_def)
    have h: "deleted_keys (impls st3 x) = deleted_keys (impls st0 x)
             \<and> cache (impls st3 x) = cache (impls st0 x)
             \<and> parent (impls st3 x) = parent (impls st0 x)" if "x \<in> set as" for x
    proof (cases "x = p")
      case True
      then show ?thesis by (simp add: p3)
    next
      case False
      have xt: "x \<noteq> ?t" using that fresh by auto
      have "child (impls st0 p) \<noteq> Some x" using old that by auto
      with y1 [of x] x1 [of x] xt False show ?thesis by (simp add: x3)
    qed
    have mw: "merged_walk (impls st3) as key = merged_walk (impls st0) as key" for key
      by (rule merged_walk_cong) (simp add: h)
    have pc: "chain (\<lambda>x. parent (impls st3 x)) (Some p) as"
    proof -
      have "chain (\<lambda>x. parent (impls st3 x)) (Some p) as
            = chain (\<lambda>x. parent (impls st0 x)) (Some p) as"
        by (rule chain_cong) (simp add: h)
      with it show ?thesis by (simp add: iterable_def)
    qed
    have b3: "backing_data_store (impls st3 p) = backing_data_store (impls st0 p)"
      by (simp add: p3)
    have cf: "(\<lambda>x. child (impls st3 x))
              = ((\<lambda>x. child (impls st0 x))(p := None))(?t := None)"
    proof
      fix x
      show "child (impls st3 x) = (((\<lambda>x. child (impls st0 x))(p := None))(?t := None)) x"
        using x1 [of x] by (cases "x = ?t"; cases "x = p") (simp_all add: t3 p3 x3 impl0_def)
    qed
    from it have "chain (\<lambda>x. child (impls st0 x)) (Some (last as)) cs"
      by (simp add: iterable_def)
    from chain_cut [OF this, of p] obtain cs1
      where "chain ((\<lambda>x. child (impls st0 x))(p := None)) (Some (last as)) cs1" by blast
    from chain_cut [OF this, of ?t] obtain cs2
      where "chain (\<lambda>x. child (impls st3 x)) (Some (last as)) cs2" unfolding cf by blast
    with pc b3 it have it3: "iterable st3 p as cs2" by (simp add: iterable_def)
    have mr: "merged_read st3 as p key = merged_read st0 as p key" for key
      unfolding merged_read_def mw b3 s3 ..
    have mc: "merged_contains st3 as p key = merged_contains st0 as p key" for key
      unfolding merged_contains_def mw b3 s3 ..
    show ?thesis
      unfolding u
      by (simp add: session_read_returned [OF it3] session_read_returned [OF it]
          session_contains_returned [OF it3] session_contains_returned [OF it]
          mr mc s3 p3 t3 ch)
  qed
  show ?thesis
    unfolding Let_def using m rest by blast
qed

text \<open>Witness of C7: a session is nested on the root of \<open>two_layers\<close> (whose child was the
  session at address 2), writes key 1 and erases key 2, and is undone; the root still
  reads \<open>(1, 10)\<close> from the backing store and \<open>(2, 20)\<close> from its overlay.\<close>

theorem undo_restores_parent_view_witness:
  "\<exists>st1 st2 st3.
     make_nested_session two_layers (Some 1) = ret (st1, Some 3)
     \<and> session_write st1 (Some 3) (1, 11) = ret st2
     \<and> session_erase st2 (Some 3) 2 = ret st3
     \<and> returned (session_read (session_undo st3 (Some 3)) (Some 1) 1) = ret (Some (1, 10))
     \<and> returned (session_read (session_undo st3 (Some 3)) (Some 1) 2) = ret (Some (2, 20))
     \<and> returned (session_contains (session_undo st3 (Some 3)) (Some 1) 2) = ret True
     \<and> child (impls (session_undo st3 (Some 3)) 1) = None
     \<and> impls (session_undo st3 (Some 3)) 3 = impl0"
proof -
  have n: "next_impl two_layers = 3" by (simp add: two_layers_def)
  have c: "child (impls two_layers 1) = Some 2" by (simp add: two_layers_def impl0_def)
  have it: "iterable two_layers 1 [1] [1, 2]"
    by (simp add: two_layers_def impl0_def iterable_def)
  have fresh: "next_impl two_layers \<notin> set [1]" by (simp add: n)
  have old: "\<forall>c. child (impls two_layers 1) = Some c \<longrightarrow>
                  c \<notin> set [1] \<and> c \<noteq> next_impl two_layers"
    by (simp add: n c del: One_nat_def)
  from undo_restores_parent_view [OF it fresh old] obtain st1 where
    m: "make_nested_session two_layers (Some 1) = ret (st1, Some 3)"
    and r: "\<And>st2. only_layer st1 st2 3 \<Longrightarrow>
              (\<forall>key. returned (session_read (session_undo st2 (Some 3)) (Some 1) key)
                            = returned (session_read two_layers (Some 1) key)
                        \<and> returned (session_read two_layers (Some 1) key)
                            = ret (merged_read two_layers [1] 1 key)
                        \<and> returned (session_contains (session_undo st2 (Some 3)) (Some 1) key)
                            = returned (session_contains two_layers (Some 1) key)
                        \<and> returned (session_contains two_layers (Some 1) key)
                            = ret (merged_contains two_layers [1] 1 key))
              \<and> child (impls (session_undo st2 (Some 3)) 1) = None
              \<and> impls (session_undo st2 (Some 3)) 3 = impl0"
    unfolding n Let_def by blast
  have "(1::nat) \<noteq> next_impl two_layers" "child (impls two_layers 1) \<noteq> Some (next_impl two_layers)"
    "child (impls two_layers 1) \<noteq> Some 1" by (simp_all add: n c del: One_nat_def)
  from make_nested_session_state [OF this] m have
    t1: "impls st1 3 = impl0\<lparr>parent := Some 1,
           backing_data_store := backing_data_store (impls two_layers 1)\<rparr>"
    and p1: "impls st1 1 = (impls two_layers 1)\<lparr>child := Some 3\<rparr>"
    unfolding n by auto
  have it1: "iterable st1 3 [3, 1] [1, 3]"
    by (simp add: iterable_def t1 p1 two_layers_def impl0_def del: One_nat_def)
  from session_write_total [OF it1] obtain st2
    where w: "session_write st1 (Some 3) (1, 11) = ret st2" by blast
  note o2 = session_write_effects(1) [OF w]
  have it2: "iterable st2 3 [3, 1] [1, 3]" using it1 by (simp add: iterable_only_layer [OF o2])
  from session_erase_total [OF it2] obtain st3
    where e: "session_erase st2 (Some 3) 2 = ret st3" by blast
  note o3 = only_layer_trans [OF o2 session_erase_effects(1) [OF e]]
  have v1: "merged_read two_layers [1] 1 1 = Some (1, 10)" by code_simp
  have v2: "merged_read two_layers [1] 1 2 = Some (2, 20)" by code_simp
  have v3: "merged_contains two_layers [1] 1 2 = True" by code_simp
  from r [OF o3] m w e show ?thesis
    by (simp add: v1 v2 v3 del: One_nat_def)
qed
end
